theory Spec2Isabelle
  imports Main
begin

section \<open>Port allocation (ProxyManager.findFreeProxyPort, ProxyManager.isPortFree)\<close>

text \<open>
  \<^verbatim>\<open>isPortFree(port)\<close> creates a server and calls \<^verbatim>\<open>server.listen(port)\<close>. The promise
  resolves to \<^verbatim>\<open>true\<close> on the \<^verbatim>\<open>listening\<close> event (the socket is closed again), to
  \<^verbatim>\<open>false\<close> on the \<^verbatim>\<open>error\<close> event, and rejects when \<^verbatim>\<open>listen\<close> itself throws.
  The network is the environment: it tells, for each port, which of the three happens.
\<close>

datatype bind_outcome = Listening | ErrorEvent | ListenThrows

datatype error = NetError | FsError | TypeError

definition isPortFree :: "(nat \<Rightarrow> bind_outcome) \<Rightarrow> nat \<Rightarrow> error + bool" where
  "isPortFree net port =
     (case net port of
        Listening \<Rightarrow> Inr True
      | ErrorEvent \<Rightarrow> Inr False
      | ListenThrows \<Rightarrow> Inl NetError)"

text \<open>
  The loop \<^verbatim>\<open>for (let port = 7001; port <= 7010; port++)\<close> of \<^verbatim>\<open>findFreeProxyPort\<close>,
  as a recursion on the loop variable. A rejected probe is caught and logged inside the
  loop body, and the loop goes on with the next port. The second component of the result
  lists the ports on which a bind was attempted, in the order of the attempts.
\<close>

function scan_ports :: "(nat \<Rightarrow> bind_outcome) \<Rightarrow> nat \<Rightarrow> nat \<times> nat list" where
  "scan_ports net port =
     (if port \<le> 7010 then
        (case isPortFree net port of
           Inr True \<Rightarrow> (port, [port])
         | _ \<Rightarrow> (case scan_ports net (port + 1) of (r, probed) \<Rightarrow> (r, port # probed)))
      else (7001, []))"
  by pat_completeness auto
termination
  by (relation "measure (\<lambda>(net, port). 7011 - port)") auto

declare scan_ports.simps [simp del]

definition findFreeProxyPort :: "(nat \<Rightarrow> bind_outcome) \<Rightarrow> nat \<times> nat list" where
  "findFreeProxyPort net = scan_ports net 7001"

section \<open>JavaScript values\<close>

text \<open>
  The values that reach the proxy are those of a parsed JSON body, and \<^verbatim>\<open>undefined\<close> for a
  property that is not there. An object is the list of its own properties in the order in
  which they are enumerated, with distinct keys; none of them is a function, and its
  prototype is \<^verbatim>\<open>Object.prototype\<close>.

  A number is an IEEE double in the code. It is represented here by the string that
  \<^verbatim>\<open>Number.prototype.toString\<close> gives for it: \<^verbatim>\<open>0\<close> for both zeros, \<^verbatim>\<open>42\<close>, \<^verbatim>\<open>-1.5\<close>,
  \<^verbatim>\<open>1e+21\<close>, \<^verbatim>\<open>NaN\<close>, \<^verbatim>\<open>Infinity\<close>, \<^verbatim>\<open>-Infinity\<close>. That string determines the double
  up to the sign of zero, and the code studied here looks at a number only through its
  truthiness, its conversion to a string and \<^verbatim>\<open>JSON.stringify\<close>, which are functions of it.
\<close>

type_synonym number = string

datatype jsval =
    JUndefined
  | JNull
  | JBool bool
  | JNum number
  | JStr string
  | JArr "jsval list"
  | JObj "(string \<times> jsval) list"

fun truthy :: "jsval \<Rightarrow> bool" where
  "truthy JUndefined = False"
| "truthy JNull = False"
| "truthy (JBool b) = b"
| "truthy (JNum n) = (n \<noteq> ''0'' \<and> n \<noteq> ''NaN'')"
| "truthy (JStr s) = (s \<noteq> [])"
| "truthy (JArr xs) = True"
| "truthy (JObj fs) = True"

text \<open>
  \<^verbatim>\<open>v.content\<close>: a TypeError on \<^verbatim>\<open>undefined\<close> and \<^verbatim>\<open>null\<close>, the own property of an object,
  and \<^verbatim>\<open>undefined\<close> on every other value (no prototype has a property of that name).
\<close>

fun get_content :: "jsval \<Rightarrow> error + jsval" where
  "get_content JUndefined = Inl TypeError"
| "get_content JNull = Inl TypeError"
| "get_content (JObj fs) = Inr (case map_of fs ''content'' of Some v \<Rightarrow> v | None \<Rightarrow> JUndefined)"
| "get_content v = Inr JUndefined"

text \<open>
  Assignment to a property: an existing property keeps its place, a new one goes last.
\<close>

fun set_field :: "'k \<Rightarrow> 'v \<Rightarrow> ('k \<times> 'v) list \<Rightarrow> ('k \<times> 'v) list" where
  "set_field k v [] = [(k, v)]"
| "set_field k v ((k', v') # fs) = (if k' = k then (k, v) # fs else (k', v') # set_field k v fs)"

fun set_content :: "jsval \<Rightarrow> jsval \<Rightarrow> jsval" where
  "set_content (JObj fs) v = JObj (set_field ''content'' v fs)"
| "set_content x v = x"

definition digit_char :: "nat \<Rightarrow> char" where
  "digit_char d = ''0123456789'' ! d"

fun show_nat :: "nat \<Rightarrow> string" where
  "show_nat n = (if n < 10 then [digit_char n] else show_nat (n div 10) @ [digit_char (n mod 10)])"

declare show_nat.simps [simp del]

text \<open>
  The conversion to a string that a template literal applies to an interpolated value.
  A primitive has its usual spelling. An object is converted by its \<^verbatim>\<open>toString\<close>
  method: the one of \<^verbatim>\<open>Object.prototype\<close> answers \<^verbatim>\<open>[object Object]\<close>, but an own
  property of that name hides it, is not callable, and then neither is there a
  \<^verbatim>\<open>valueOf\<close> that yields a primitive: the conversion throws a TypeError. An array is
  converted by \<^verbatim>\<open>join\<close>: the conversions of its elements, separated by commas, with the
  empty string for \<^verbatim>\<open>null\<close> and \<^verbatim>\<open>undefined\<close>; it throws when the conversion of an
  element does.
\<close>

fun to_string :: "jsval \<Rightarrow> error + string"
  and join_elems :: "jsval list \<Rightarrow> error + string" where
  "to_string JUndefined = Inr ''undefined''"
| "to_string JNull = Inr ''null''"
| "to_string (JBool b) = Inr (if b then ''true'' else ''false'')"
| "to_string (JNum n) = Inr n"
| "to_string (JStr s) = Inr s"
| "to_string (JArr xs) = join_elems xs"
| "to_string (JObj fs) =
     (case map_of fs ''toString'' of
        None \<Rightarrow> Inr ''[object Object]''
      | Some v \<Rightarrow> Inl TypeError)"
| "join_elems [] = Inr []"
| "join_elems (x # xs) =
     (case (if x = JNull \<or> x = JUndefined then Inr [] else to_string x) of
        Inl e \<Rightarrow> Inl e
      | Inr s \<Rightarrow>
          (case join_elems xs of
             Inl e \<Rightarrow> Inl e
           | Inr t \<Rightarrow> Inr (if xs = [] then s else s @ '','' @ t)))"

subsection \<open>JSON.stringify\<close>

text \<open>
  The text of a value: a string between quotes with the quote, the backslash and the
  control characters escaped; an array with \<^verbatim>\<open>null\<close> for an element that is
  \<^verbatim>\<open>undefined\<close>; an object without the properties whose value is \<^verbatim>\<open>undefined\<close>; \<^verbatim>\<open>null\<close>
  for a number that is not finite. \<^verbatim>\<open>JSON.stringify(undefined)\<close> is \<^verbatim>\<open>undefined\<close>.
\<close>

definition hex_char :: "nat \<Rightarrow> char" where
  "hex_char d = ''0123456789abcdef'' ! d"

definition esc :: "char \<Rightarrow> string" where
  "esc c =
     (if c = CHR 0x22 then [CHR 0x5C, CHR 0x22]
      else if c = CHR 0x5C then [CHR 0x5C, CHR 0x5C]
      else if c = CHR 0x08 then [CHR 0x5C, CHR ''b'']
      else if c = CHR 0x0C then [CHR 0x5C, CHR ''f'']
      else if c = CHR 0x0A then [CHR 0x5C, CHR ''n'']
      else if c = CHR 0x0D then [CHR 0x5C, CHR ''r'']
      else if c = CHR 0x09 then [CHR 0x5C, CHR ''t'']
      else if (of_char c :: nat) < 0x20
        then [CHR 0x5C, CHR ''u'', CHR ''0'', CHR ''0'',
              hex_char (of_char c div 16), hex_char (of_char c mod 16)]
      else [c])"

definition quote :: "string \<Rightarrow> string" where
  "quote s = CHR 0x22 # concat (map esc s) @ [CHR 0x22]"

fun ser :: "jsval \<Rightarrow> string"
  and ser_elems :: "jsval list \<Rightarrow> string"
  and ser_members :: "(string \<times> jsval) list \<Rightarrow> string" where
  "ser JUndefined = ''null''"
| "ser JNull = ''null''"
| "ser (JBool b) = (if b then ''true'' else ''false'')"
| "ser (JNum n) = (if n = ''NaN'' \<or> n = ''Infinity'' \<or> n = ''-Infinity'' then ''null'' else n)"
| "ser (JStr s) = quote s"
| "ser (JArr xs) = ''['' @ ser_elems xs @ '']''"
| "ser (JObj fs) = ''{'' @ ser_members fs @ ''}''"
| "ser_elems [] = []"
| "ser_elems [x] = ser x"
| "ser_elems (x # y # ys) = ser x @ '','' @ ser_elems (y # ys)"
| "ser_members [] = []"
| "ser_members ((k, v) # fs) =
     (if v = JUndefined then ser_members fs
      else quote k @ '':'' @ ser v @
           (if ser_members fs = [] then [] else '','' @ ser_members fs))"

definition stringify :: "jsval \<Rightarrow> string option" where
  "stringify v = (if v = JUndefined then None else Some (ser v))"

subsection \<open>JSON.parse\<close>

text \<open>
  The reader of a log line: the JSON grammar without insignificant white space, which is
  what \<^verbatim>\<open>JSON.stringify\<close> (called without an indent) writes. The descent into arrays and
  objects is bounded by a fuel argument; running out of fuel is a failure (\<open>None\<close>).
\<close>

definition is_digit :: "char \<Rightarrow> bool" where
  "is_digit c = (c \<in> set ''0123456789'')"

text \<open>
  A number token: the longest run of the characters that numbers are written with, which
  has to follow the grammar of JSON numbers. The token is taken for the spelling of the
  number. That is right for the tokens that \<^verbatim>\<open>JSON.stringify\<close> writes, since reading what
  \<^verbatim>\<open>Number.prototype.toString\<close> has printed gives the number back; another spelling of a
  number (\<^verbatim>\<open>1.0\<close>, \<^verbatim>\<open>1e5\<close>) is not brought into that form.
\<close>

definition is_num_char :: "char \<Rightarrow> bool" where
  "is_num_char c = (is_digit c \<or> c \<in> set ''-+.eE'')"

datatype nstate = NStart | NMinus | NZero | NInt | NDot | NFrac | NExp | NSign | NExpDigits

fun nstep :: "nstate \<Rightarrow> char \<Rightarrow> nstate option" where
  "nstep NStart c =
     (if c = CHR ''-'' then Some NMinus else if c = CHR ''0'' then Some NZero
      else if is_digit c then Some NInt else None)"
| "nstep NMinus c =
     (if c = CHR ''0'' then Some NZero else if is_digit c then Some NInt else None)"
| "nstep NZero c =
     (if c = CHR ''.'' then Some NDot else if c = CHR ''e'' \<or> c = CHR ''E'' then Some NExp
      else None)"
| "nstep NInt c =
     (if is_digit c then Some NInt else if c = CHR ''.'' then Some NDot
      else if c = CHR ''e'' \<or> c = CHR ''E'' then Some NExp else None)"
| "nstep NDot c = (if is_digit c then Some NFrac else None)"
| "nstep NFrac c =
     (if is_digit c then Some NFrac else if c = CHR ''e'' \<or> c = CHR ''E'' then Some NExp
      else None)"
| "nstep NExp c =
     (if c = CHR ''+'' \<or> c = CHR ''-'' then Some NSign else if is_digit c then Some NExpDigits
      else None)"
| "nstep NSign c = (if is_digit c then Some NExpDigits else None)"
| "nstep NExpDigits c = (if is_digit c then Some NExpDigits else None)"

fun nrun :: "nstate \<Rightarrow> string \<Rightarrow> bool" where
  "nrun q [] = (q = NZero \<or> q = NInt \<or> q = NFrac \<or> q = NExpDigits)"
| "nrun q (c # cs) = (case nstep q c of None \<Rightarrow> False | Some q' \<Rightarrow> nrun q' cs)"

definition json_number :: "string \<Rightarrow> bool" where
  "json_number tok = nrun NStart tok"

definition parse_number :: "string \<Rightarrow> (jsval \<times> string) option" where
  "parse_number s =
     (let tok = takeWhile is_num_char s in
      if json_number tok then Some (JNum tok, dropWhile is_num_char s) else None)"

definition hex_val :: "char \<Rightarrow> nat option" where
  "hex_val c =
     (if is_digit c then Some (of_char c - 48)
      else if c \<in> set ''abcdef'' then Some (of_char c - 87)
      else if c \<in> set ''ABCDEF'' then Some (of_char c - 55)
      else None)"

definition unescape :: "char \<Rightarrow> char option" where
  "unescape e =
     (if e = CHR 0x22 then Some (CHR 0x22)
      else if e = CHR 0x5C then Some (CHR 0x5C)
      else if e = CHR ''/'' then Some (CHR ''/'')
      else if e = CHR ''b'' then Some (CHR 0x08)
      else if e = CHR ''f'' then Some (CHR 0x0C)
      else if e = CHR ''n'' then Some (CHR 0x0A)
      else if e = CHR ''r'' then Some (CHR 0x0D)
      else if e = CHR ''t'' then Some (CHR 0x09)
      else None)"

definition unicode :: "char \<Rightarrow> char \<Rightarrow> char \<Rightarrow> char \<Rightarrow> char option" where
  "unicode a b c d =
     (case (hex_val a, hex_val b, hex_val c, hex_val d) of
        (Some x, Some y, Some z, Some u) \<Rightarrow>
          if x = 0 \<and> y = 0 then Some (char_of (z * 16 + u)) else None
      | _ \<Rightarrow> None)"

fun parse_chars :: "string \<Rightarrow> (string \<times> string) option" where
  "parse_chars [] = None"
| "parse_chars (c # s) =
     (if c = CHR 0x22 then Some ([], s)
      else if c = CHR 0x5C then
        (case s of
           [] \<Rightarrow> None
         | e # s' \<Rightarrow>
             if e = CHR ''u'' then
               (case s' of
                  a # b # c' # d # s'' \<Rightarrow>
                    (case unicode a b c' d of
                       None \<Rightarrow> None
                     | Some ch \<Rightarrow> map_option (\<lambda>(t, r). (ch # t, r)) (parse_chars s''))
                | _ \<Rightarrow> None)
             else
               (case unescape e of
                  None \<Rightarrow> None
                | Some ch \<Rightarrow> map_option (\<lambda>(t, r). (ch # t, r)) (parse_chars s')))
      else if (of_char c :: nat) < 0x20 then None
      else map_option (\<lambda>(t, r). (c # t, r)) (parse_chars s))"

fun parse_value :: "nat \<Rightarrow> string \<Rightarrow> (jsval \<times> string) option"
  and parse_elems :: "nat \<Rightarrow> string \<Rightarrow> (jsval list \<times> string) option"
  and parse_members :: "nat \<Rightarrow> string \<Rightarrow> ((string \<times> jsval) list \<times> string) option" where
  "parse_value 0 s = None"
| "parse_value (Suc n) s =
     (case s of
        [] \<Rightarrow> None
      | c # r \<Rightarrow>
          if c = CHR ''n'' then (if take 3 r = ''ull'' then Some (JNull, drop 3 r) else None)
          else if c = CHR ''t'' then (if take 3 r = ''rue'' then Some (JBool True, drop 3 r) else None)
          else if c = CHR ''f'' then (if take 4 r = ''alse'' then Some (JBool False, drop 4 r) else None)
          else if c = CHR 0x22 then map_option (\<lambda>(t, r'). (JStr t, r')) (parse_chars r)
          else if c = CHR ''['' then
            (case r of
               [] \<Rightarrow> None
             | d # r' \<Rightarrow>
                 if d = CHR '']'' then Some (JArr [], r')
                 else map_option (\<lambda>(vs, r''). (JArr vs, r'')) (parse_elems n r))
          else if c = CHR ''{'' then
            (case r of
               [] \<Rightarrow> None
             | d # r' \<Rightarrow>
                 if d = CHR ''}'' then Some (JObj [], r')
                 else map_option (\<lambda>(ms, r''). (JObj ms, r'')) (parse_members n r))
          else parse_number s)"
| "parse_elems 0 s = None"
| "parse_elems (Suc n) s =
     (case parse_value n s of
        None \<Rightarrow> None
      | Some (v, r) \<Rightarrow>
          (case r of
             [] \<Rightarrow> None
           | c # r' \<Rightarrow>
               if c = CHR '','' then map_option (\<lambda>(vs, r''). (v # vs, r'')) (parse_elems n r')
               else if c = CHR '']'' then Some ([v], r')
               else None))"
| "parse_members 0 s = None"
| "parse_members (Suc n) s =
     (case s of
        [] \<Rightarrow> None
      | q # r \<Rightarrow>
          if q \<noteq> CHR 0x22 then None
          else
            (case parse_chars r of
               None \<Rightarrow> None
             | Some (k, r1) \<Rightarrow>
                 (case r1 of
                    [] \<Rightarrow> None
                  | c # r2 \<Rightarrow>
                      if c \<noteq> CHR '':'' then None
                      else
                        (case parse_value n r2 of
                           None \<Rightarrow> None
                         | Some (v, r3) \<Rightarrow>
                             (case r3 of
                                [] \<Rightarrow> None
                              | d # r4 \<Rightarrow>
                                  if d = CHR '','' then
                                    map_option (\<lambda>(ms, r5). ((k, v) # ms, r5)) (parse_members n r4)
                                  else if d = CHR ''}'' then Some ([(k, v)], r4)
                                  else None)))))"

definition JSON_parse :: "nat \<Rightarrow> string \<Rightarrow> jsval option" where
  "JSON_parse fuel s =
     (case parse_value fuel s of
        Some (v, []) \<Rightarrow> Some v
      | _ \<Rightarrow> None)"

section \<open>The file system and the clock\<close>

text \<open>
  A path is the list of its segments. The file system holds the directories, the regular
  files with their contents, and the paths on which a write fails (no permission, a
  read-only volume). \<^verbatim>\<open>mkdirSync\<close> with \<^verbatim>\<open>recursive: true\<close> creates the directory with
  its parents; \<^verbatim>\<open>appendFileSync\<close> creates the file when it is not there, and fails when the
  path is denied, is a directory, or lies in no directory.
\<close>

type_synonym path = "string list"

record filesys =
  dirs :: "path list"
  files :: "(path \<times> string) list"
  denied :: "path list"

definition path_join :: "string list \<Rightarrow> path" where
  "path_join segments = filter (\<lambda>s. s \<noteq> []) segments"

definition existsSync :: "filesys \<Rightarrow> path \<Rightarrow> bool" where
  "existsSync fs p = (p \<in> set (dirs fs) \<or> p \<in> fst ` set (files fs))"

definition mkdirSync :: "filesys \<Rightarrow> path \<Rightarrow> error + filesys" where
  "mkdirSync fs p =
     (if p \<in> set (denied fs) then Inl FsError else Inr (fs\<lparr>dirs := p # dirs fs\<rparr>))"

definition readFile :: "filesys \<Rightarrow> path \<Rightarrow> string" where
  "readFile fs f = (case map_of (files fs) f of Some c \<Rightarrow> c | None \<Rightarrow> [])"

definition appendFileSync :: "filesys \<Rightarrow> path \<Rightarrow> string \<Rightarrow> error + filesys" where
  "appendFileSync fs f s =
     (if f \<in> set (denied fs) \<or> f \<in> set (dirs fs) \<or> butlast f \<notin> set (dirs fs)
      then Inl FsError
      else Inr (fs\<lparr>files := set_field f (readFile fs f @ s) (files fs)\<rparr>))"

text \<open>
  The host of the process: the two environment variables that \<^verbatim>\<open>logRequest\<close> reads and the
  clock. \<^verbatim>\<open>new Date()\<close> reads the clock; the world counts the readings, so that two
  readings may differ.
\<close>

record datetime =
  getFullYear :: nat
  getMonth :: nat
  getDate :: nat
  getUTCFullYear :: nat
  getUTCMonth :: nat
  getUTCDate :: nat
  getUTCHours :: nat
  getUTCMinutes :: nat
  getUTCSeconds :: nat
  getUTCMilliseconds :: nat

definition padStart :: "nat \<Rightarrow> string \<Rightarrow> string" where
  "padStart k s = replicate (k - length s) (CHR ''0'') @ s"

text \<open>
  \<^verbatim>\<open>toISOString()\<close>: the UTC fields in the form \<^verbatim>\<open>YYYY-MM-DDTHH:mm:ss.sssZ\<close>; a year after
  9999 is written with a plus sign and six digits. (Years before the year 0 are not
  considered: the fields are natural numbers.)
\<close>

definition toISOString :: "datetime \<Rightarrow> string" where
  "toISOString d =
     (if getUTCFullYear d \<le> 9999 then padStart 4 (show_nat (getUTCFullYear d))
      else ''+'' @ padStart 6 (show_nat (getUTCFullYear d))) @ ''-'' @
     padStart 2 (show_nat (getUTCMonth d + 1)) @ ''-'' @
     padStart 2 (show_nat (getUTCDate d)) @ ''T'' @
     padStart 2 (show_nat (getUTCHours d)) @ '':'' @
     padStart 2 (show_nat (getUTCMinutes d)) @ '':'' @
     padStart 2 (show_nat (getUTCSeconds d)) @ ''.'' @
     padStart 3 (show_nat (getUTCMilliseconds d)) @ ''Z''"

record host =
  USERPROFILE :: "string option"
  HOME :: "string option"
  clock :: "nat \<Rightarrow> datetime"

definition or_else :: "string option \<Rightarrow> string \<Rightarrow> string" where
  "or_else a b = (case a of Some s \<Rightarrow> if s \<noteq> [] then s else b | None \<Rightarrow> b)"

text \<open>
  The state that a request works on. Arrays are objects with an identity: the store maps
  the address of an array to its elements, so that one can see whether two names denote
  the same array.
\<close>

type_synonym addr = nat

record world =
  heap :: "addr \<Rightarrow> jsval list"
  next_addr :: addr
  fsys :: filesys
  time :: nat

definition new_array :: "jsval list \<Rightarrow> world \<Rightarrow> addr \<times> world" where
  "new_array xs w =
     (next_addr w, w\<lparr>heap := (heap w)(next_addr w := xs), next_addr := Suc (next_addr w)\<rparr>)"

section \<open>The transformer (OrchestratorAdapter)\<close>

text \<open>
  \<^verbatim>\<open>logRequest\<close> has no \<^verbatim>\<open>try\<close>: what \<^verbatim>\<open>mkdirSync\<close> or \<^verbatim>\<open>appendFileSync\<close> throws leaves it.
  \<^verbatim>\<open>processPrompt\<close> and \<^verbatim>\<open>processResponse\<close> are \<^verbatim>\<open>async\<close> functions without \<^verbatim>\<open>await\<close>: they
  run to their end within the call, and the promise returned is fulfilled with the result or
  rejected with what was thrown (\<open>Inr\<close> and \<open>Inl\<close> below). The argument \<open>messages\<close> of
  \<^verbatim>\<open>processPrompt\<close> is the address of an array.
\<close>

datatype phase = Inbound | Outbound

fun phase_name :: "phase \<Rightarrow> string" where
  "phase_name Inbound = ''inbound''"
| "phase_name Outbound = ''outbound''"

definition nl :: char where
  "nl = CHR 0x0A"

definition log_dir :: "host \<Rightarrow> path" where
  "log_dir h = path_join [or_else (USERPROFILE h) (or_else (HOME h) []), ''.orchestrator'', ''logs'']"

definition log_filename :: "datetime \<Rightarrow> string" where
  "log_filename now =
     show_nat (getFullYear now) @ ''-'' @ padStart 2 (show_nat (getMonth now + 1)) @ ''-'' @
     padStart 2 (show_nat (getDate now)) @ ''.log''"

definition log_entry :: "datetime \<Rightarrow> phase \<Rightarrow> jsval \<Rightarrow> jsval" where
  "log_entry now ph data =
     JObj [(''ts'', JStr (toISOString now)), (''phase'', JStr (phase_name ph)), (''data'', data)]"

definition logRequest :: "host \<Rightarrow> phase \<Rightarrow> jsval \<Rightarrow> world \<Rightarrow> (error + unit) \<times> world" where
  "logRequest h ph data w =
     (let logDir = log_dir h in
      case (if \<not> existsSync (fsys w) logDir then mkdirSync (fsys w) logDir else Inr (fsys w)) of
        Inl e \<Rightarrow> (Inl e, w)
      | Inr fs1 \<Rightarrow>
          (let now = clock h (time w);
               w1 = w\<lparr>fsys := fs1, time := Suc (time w)\<rparr>;
               logFile = logDir @ [log_filename now]
           in case appendFileSync fs1 logFile (ser (log_entry now ph data) @ [nl]) of
                Inl e \<Rightarrow> (Inl e, w1)
              | Inr fs2 \<Rightarrow> (Inr (), w1\<lparr>fsys := fs2\<rparr>)))"

definition processPrompt :: "host \<Rightarrow> world \<Rightarrow> addr \<Rightarrow> jsval \<Rightarrow> (error + addr) \<times> world" where
  "processPrompt h w messages meta =
     (case logRequest h Inbound (JObj [(''messages'', JArr (heap w messages)), (''meta'', meta)]) w of
        (Inl e, w1) \<Rightarrow> (Inl e, w1)
      | (Inr u, w1) \<Rightarrow>
          (let ms = heap w1 messages in
           if length ms > 0 then
             (case get_content (ms ! 0) of
                Inl e \<Rightarrow> (Inl e, w1)
              | Inr content \<Rightarrow>
                  if truthy content then
                    (case to_string content of
                       Inl e \<Rightarrow> (Inl e, w1)
                     | Inr str \<Rightarrow>
                         (Inr messages,
                          w1\<lparr>heap := (heap w1)(messages :=
                             ms[0 := set_content (ms ! 0) (JStr (''[DEBUG] '' @ str))])\<rparr>))
                  else (Inr messages, w1))
           else (Inr messages, w1)))"

definition processResponse :: "host \<Rightarrow> world \<Rightarrow> jsval \<Rightarrow> jsval \<Rightarrow> (error + jsval) \<times> world" where
  "processResponse h w chunk meta =
     (case logRequest h Outbound (JObj [(''chunk'', chunk), (''meta'', meta)]) w of
        (Inl e, w1) \<Rightarrow> (Inl e, w1)
      | (Inr u, w1) \<Rightarrow> (Inr chunk, w1))"

section \<open>The chat-completions route of the proxy\<close>

text \<open>
  The request body, parsed by \<^verbatim>\<open>express.json()\<close>. \<open>rb_fields\<close> lists its own properties.
  When \<^verbatim>\<open>messages\<close> is an array, the array is in the store at the address \<open>rb_messages\<close>, and
  the entry of \<^verbatim>\<open>messages\<close> in \<open>rb_fields\<close> only keeps its place among the properties;
  \<open>rb_messages\<close> is \<open>None\<close> when the property is missing or falsy, and then
  \<^verbatim>\<open>requestBody.messages || []\<close> is a new array. A \<^verbatim>\<open>messages\<close> that is truthy and not an
  array is not considered.
\<close>

record request_body =
  rb_fields :: "(string \<times> jsval) list"
  rb_messages :: "addr option"

record request =
  req_body :: request_body
  req_headers :: "(string \<times> jsval) list"
  req_ip :: jsval
  req_path :: string
  req_method :: string

text \<open>
  The response as the caller sees it: the status, the headers that the route sets (those
  that Express adds when it sends are left out), the chunks written, in order, and whether
  the response was ended. A write after the end sends nothing.
\<close>

record response =
  statusCode :: nat
  headers :: "(string \<times> string) list"
  body :: "string list"
  ended :: bool

definition fresh_response :: response where
  "fresh_response = \<lparr>statusCode = 200, headers = [], body = [], ended = False\<rparr>"

definition res_setHeader :: "string \<Rightarrow> string \<Rightarrow> response \<Rightarrow> response" where
  "res_setHeader k v res = res\<lparr>headers := set_field k v (headers res)\<rparr>"

definition res_status :: "nat \<Rightarrow> response \<Rightarrow> response" where
  "res_status n res = res\<lparr>statusCode := n\<rparr>"

definition res_write :: "string \<Rightarrow> response \<Rightarrow> response" where
  "res_write chunk res = (if ended res then res else res\<lparr>body := body res @ [chunk]\<rparr>)"

definition res_end :: "response \<Rightarrow> response" where
  "res_end res = res\<lparr>ended := True\<rparr>"

definition res_send :: "string \<Rightarrow> response \<Rightarrow> response" where
  "res_send text res = res_end (res_write text res)"

definition res_json :: "jsval \<Rightarrow> response \<Rightarrow> response" where
  "res_json v res =
     res_send (case stringify v of Some s \<Rightarrow> s | None \<Rightarrow> [])
       (res_setHeader ''Content-Type'' ''application/json'' res)"

text \<open>
  What \<^verbatim>\<open>fetch\<close> resolves to. The body of a streaming response arrives in chunks; a chunk is
  given by the events that the parser completes while the chunk is fed to it. The body is
  read to its end: a read error and a caller that goes away are not considered.
\<close>

record sse_event =
  ev_type :: string
  ev_data :: string

record upstream_response =
  up_ok :: bool
  up_status :: nat
  up_text :: string
  up_json :: "jsval option"
  up_events :: "sse_event list list option"

record outcome =
  resp :: response
  forwarded :: "jsval list"
  final :: world

text \<open>
  The route, for any transformer. \<open>fetch\<close> is the upstream: it is given the value that the
  route serialises into the request body, and \<open>None\<close> is a rejected \<^verbatim>\<open>fetch\<close>. The outcome
  holds the response as the caller sees it, the bodies sent upstream, and the final state.
\<close>

type_synonym prompt_fn = "world \<Rightarrow> addr \<Rightarrow> jsval \<Rightarrow> (error + addr) \<times> world"
type_synonym response_fn = "world \<Rightarrow> jsval \<Rightarrow> jsval \<Rightarrow> (error + jsval) \<times> world"

definition field :: "(string \<times> jsval) list \<Rightarrow> string \<Rightarrow> jsval" where
  "field fs k = (case map_of fs k of Some v \<Rightarrow> v | None \<Rightarrow> JUndefined)"

definition sse_frame :: "string \<Rightarrow> string" where
  "sse_frame payload = ''data: '' @ payload @ [nl, nl]"

text \<open>
  The parser callback does not write. It calls \<^verbatim>\<open>processResponse\<close>, which runs to its end
  within the call (the transformers considered are \<^verbatim>\<open>async\<close> functions without \<^verbatim>\<open>await\<close>,
  as the default one is), and registers \<^verbatim>\<open>.then(...).catch(...)\<close> on the promise
  returned, which is settled by then. So the
  reaction of \<^verbatim>\<open>.then\<close> is put on the queue of promise jobs at once: with the value, or,
  the promise being rejected, to pass the rejection on to \<^verbatim>\<open>.catch\<close>. The job remembers
  \<^verbatim>\<open>event.data\<close>, which the \<^verbatim>\<open>.catch\<close> handler writes.
\<close>

datatype job =
    Then "error + jsval" string
  | Catch string

definition on_event ::
  "response_fn \<Rightarrow> jsval \<Rightarrow> sse_event \<Rightarrow> world \<times> job list \<Rightarrow> world \<times> job list" where
  "on_event pr meta event s =
     (case s of (w, queue) \<Rightarrow>
        if ev_type event = ''event'' \<and> ev_data event \<noteq> [] then
          (case pr w (JStr (ev_data event)) meta of
             (settled, w') \<Rightarrow> (w', queue @ [Then settled (ev_data event)]))
        else (w, queue))"

text \<open>
  One promise job. The \<^verbatim>\<open>.then\<close> handler writes the frame and ends the response when the
  processed value is the string \<^verbatim>\<open>[DONE]\<close>. When the promise was rejected, or when the
  handler throws (the template literal cannot convert the value), the promise that
  \<^verbatim>\<open>.then\<close> returned is rejected and the reaction of \<^verbatim>\<open>.catch\<close> goes to the end of the
  queue. The \<^verbatim>\<open>.catch\<close> handler writes the frame of the unprocessed payload.
\<close>

fun run_job :: "job \<Rightarrow> response \<times> job list \<Rightarrow> response \<times> job list" where
  "run_job (Then (Inr processedData) raw) (res, queue) =
     (case to_string processedData of
        Inr str \<Rightarrow>
          (let res' = res_write (sse_frame str) res
           in (if processedData = JStr ''[DONE]'' then res_end res' else res', queue))
      | Inl e \<Rightarrow> (res, queue @ [Catch raw]))"
| "run_job (Then (Inl e) raw) (res, queue) = (res, queue @ [Catch raw])"
| "run_job (Catch raw) (res, queue) = (res_write (sse_frame raw) res, queue)"

fun weight :: "job \<Rightarrow> nat" where
  "weight (Then settled raw) = 2"
| "weight (Catch raw) = 1"

text \<open>The queue of promise jobs is run until it is empty, first in, first out.\<close>

function run_jobs :: "job list \<Rightarrow> response \<Rightarrow> response" where
  "run_jobs [] res = res"
| "run_jobs (j # queue) res = run_jobs (snd (run_job j (res, queue))) (fst (run_job j (res, queue)))"
  by pat_completeness auto
termination
proof (relation "measure (\<lambda>(queue, res). sum_list (map weight queue))")
  show "wf (measure (\<lambda>(queue, res). sum_list (map weight queue)))" by simp
next
  fix j :: job and queue :: "job list" and res :: response
  show "((snd (run_job j (res, queue)), fst (run_job j (res, queue))), (j # queue, res))
          \<in> measure (\<lambda>(queue, res). sum_list (map weight queue))"
    by (cases "(j, (res, queue))" rule: run_job.cases) (auto simp: Let_def split: sum.splits)
qed

text \<open>
  One chunk of the upstream body is fed to the parser: the callback runs for each event
  that the chunk completes, in order, and when the \<^verbatim>\<open>data\<close> handler has returned the promise
  jobs run. The next chunk is read from a later tick, when the queue is empty.
\<close>

definition feed ::
  "response_fn \<Rightarrow> jsval \<Rightarrow> sse_event list \<Rightarrow> world \<times> response \<Rightarrow> world \<times> response" where
  "feed pr meta chunk s =
     (case s of (w, res) \<Rightarrow>
        (case fold (on_event pr meta) chunk (w, []) of
           (w', queue) \<Rightarrow> (w', run_jobs queue res)))"

definition relay ::
  "response_fn \<Rightarrow> jsval \<Rightarrow> sse_event list list \<Rightarrow> world \<times> response \<Rightarrow> world \<times> response" where
  "relay pr meta chunks s = fold (feed pr meta) chunks s"

definition stream_end :: "response \<Rightarrow> response" where
  "stream_end res = (if \<not> ended res then res_end res else res)"

definition internal_error :: "response \<Rightarrow> response" where
  "internal_error res = res_send ''Internal Server Error'' (res_status 500 res)"

definition make_meta :: "request \<Rightarrow> jsval" where
  "make_meta req =
     JObj [(''model'', field (rb_fields (req_body req)) ''model''),
           (''headers'', JObj (req_headers req)),
           (''ip'', req_ip req),
           (''path'', JStr (req_path req)),
           (''method'', JStr (req_method req))]"

definition sse_response :: response where
  "sse_response =
     res_setHeader ''Connection'' ''keep-alive''
       (res_setHeader ''Cache-Control'' ''no-cache''
         (res_setHeader ''Content-Type'' ''text/event-stream'' fresh_response))"

definition messages_or_new :: "request_body \<Rightarrow> world \<Rightarrow> addr \<times> world" where
  "messages_or_new requestBody w =
     (case rb_messages requestBody of
        Some a \<Rightarrow> (a, w)
      | None \<Rightarrow> new_array [] w)"

definition chat_completions_with ::
  "prompt_fn \<Rightarrow> response_fn \<Rightarrow> (jsval \<Rightarrow> upstream_response option) \<Rightarrow> request \<Rightarrow> world \<Rightarrow> outcome" where
  "chat_completions_with pp pr fetch req w =
     (let requestBody = req_body req;
          (messages, w0) = messages_or_new requestBody w;
          meta = make_meta req
      in case pp w0 messages meta of
           (Inl e, w1) \<Rightarrow>
             \<lparr>resp = internal_error fresh_response, forwarded = [], final = w1\<rparr>
         | (Inr processedMessages, w1) \<Rightarrow>
             (let processedRequestBody =
                    JObj (set_field ''messages'' (JArr (heap w1 processedMessages))
                            (rb_fields requestBody));
                  isStreaming = (field (rb_fields requestBody) ''stream'' = JBool True)
              in if isStreaming then
                   (let res1 = sse_response
                    in case fetch processedRequestBody of
                         None \<Rightarrow>
                           \<lparr>resp = internal_error res1, forwarded = [processedRequestBody], final = w1\<rparr>
                       | Some openaiResponse \<Rightarrow>
                           if \<not> up_ok openaiResponse then
                             \<lparr>resp = res_send (up_text openaiResponse)
                                       (res_status (up_status openaiResponse) res1),
                              forwarded = [processedRequestBody], final = w1\<rparr>
                           else
                             (case up_events openaiResponse of
                                None \<Rightarrow>
                                  \<lparr>resp = res_send ''Internal Server Error: No response body''
                                            (res_status 500 res1),
                                   forwarded = [processedRequestBody], final = w1\<rparr>
                              | Some chunks \<Rightarrow>
                                  (case relay pr meta chunks (w1, res1) of
                                     (w2, res2) \<Rightarrow>
                                       \<lparr>resp = stream_end res2,
                                        forwarded = [processedRequestBody], final = w2\<rparr>)))
                 else
                   (case fetch processedRequestBody of
                      None \<Rightarrow>
                        \<lparr>resp = internal_error fresh_response,
                         forwarded = [processedRequestBody], final = w1\<rparr>
                    | Some openaiResponse \<Rightarrow>
                        if \<not> up_ok openaiResponse then
                          \<lparr>resp = res_send (up_text openaiResponse)
                                    (res_status (up_status openaiResponse) fresh_response),
                           forwarded = [processedRequestBody], final = w1\<rparr>
                        else
                          (case up_json openaiResponse of
                             None \<Rightarrow>
                               \<lparr>resp = internal_error fresh_response,
                                forwarded = [processedRequestBody], final = w1\<rparr>
                           | Some openaiResponseData \<Rightarrow>
                               (case pr w1 openaiResponseData meta of
                                  (Inl e, w2) \<Rightarrow>
                                    \<lparr>resp = internal_error fresh_response,
                                     forwarded = [processedRequestBody], final = w2\<rparr>
                                | (Inr processedResponseData, w2) \<Rightarrow>
                                    \<lparr>resp = res_json processedResponseData fresh_response,
                                     forwarded = [processedRequestBody], final = w2\<rparr>)))))"

definition chat_completions ::
  "host \<Rightarrow> (jsval \<Rightarrow> upstream_response option) \<Rightarrow> request \<Rightarrow> world \<Rightarrow> outcome" where
  "chat_completions h = chat_completions_with (processPrompt h) (processResponse h)"

section \<open>The supervisor (ProxyManager)\<close>

text \<open>
  The fields of the manager, and around them what its methods act on: the child processes
  that have not reported their exit, those that were sent a signal, and the interval
  timers that are set. An \<^verbatim>\<open>async\<close> method runs up to its next \<^verbatim>\<open>await\<close> in one step; what
  is left of it waits in \<open>pending\<close> until the awaited timer, probe or port scan is done,
  and other steps may come in between. The events are the calls from outside, the exit
  of a child, the tick of a timer, and the completions of what is awaited, each with the
  answer of the environment.
\<close>

type_synonym pid = nat
type_synonym timer = nat

record manager =
  proxyPort :: "nat option"
  proxyProcess :: "pid option"
  healthCheckInterval :: "timer option"
  isStopped :: bool

record http_reply =
  reply_ok :: bool
  reply_status :: nat
  elapsed_ms :: nat

datatype fetch_reply = Rejected | Replied http_reply

definition probe_url :: "manager \<Rightarrow> string option" where
  "probe_url m =
     (case proxyPort m of
        None \<Rightarrow> None
      | Some port \<Rightarrow> if port = 0 then None else Some (''http://127.0.0.1:'' @ show_nat port @ ''/ping''))"

definition probe_result :: "fetch_reply \<Rightarrow> bool" where
  "probe_result r = (case r of Rejected \<Rightarrow> False | Replied response \<Rightarrow> reply_ok response)"

definition isProxyAvailable :: "manager \<Rightarrow> (string \<Rightarrow> fetch_reply) \<Rightarrow> bool \<times> string list" where
  "isProxyAvailable m fetch =
     (case probe_url m of
        None \<Rightarrow> (False, [])
      | Some url \<Rightarrow> (probe_result (fetch url), [url]))"

datatype task = StartDelay | StartProbe | RestartWait | EnsureProbe | EnsureFind | TickProbe

record system =
  mgr :: manager
  live :: "pid list"
  killed :: "pid list"
  next_pid :: pid
  timers :: "timer list"
  next_timer :: timer
  pending :: "task list"

definition init :: system where
  "init = \<lparr>mgr = \<lparr>proxyPort = None, proxyProcess = None, healthCheckInterval = None, isStopped = False\<rparr>,
           live = [], killed = [], next_pid = 0, timers = [], next_timer = 0, pending = []\<rparr>"

definition clear_health_check :: "system \<Rightarrow> system" where
  "clear_health_check s =
     (case healthCheckInterval (mgr s) of
        None \<Rightarrow> s
      | Some t \<Rightarrow> s\<lparr>timers := removeAll t (timers s),
                     mgr := (mgr s)\<lparr>healthCheckInterval := None\<rparr>\<rparr>)"

definition stopProxy :: "system \<Rightarrow> system" where
  "stopProxy s =
     (let s1 = clear_health_check s in
      case proxyProcess (mgr s1) of
        None \<Rightarrow> s1
      | Some p \<Rightarrow> s1\<lparr>killed := p # killed s1,
                      mgr := (mgr s1)\<lparr>isStopped := True, proxyProcess := None, proxyPort := None\<rparr>\<rparr>)"

definition setupHealthCheck :: "system \<Rightarrow> system" where
  "setupHealthCheck s =
     (let s1 = (case healthCheckInterval (mgr s) of
                  None \<Rightarrow> s
                | Some t \<Rightarrow> s\<lparr>timers := removeAll t (timers s)\<rparr>)
      in s1\<lparr>timers := next_timer s1 # timers s1,
             next_timer := Suc (next_timer s1),
             mgr := (mgr s1)\<lparr>healthCheckInterval := Some (next_timer s1)\<rparr>\<rparr>)"

definition suspend :: "task \<Rightarrow> system \<Rightarrow> system" where
  "suspend t s = s\<lparr>pending := pending s @ [t]\<rparr>"

definition startProxy :: "nat \<Rightarrow> system \<Rightarrow> system" where
  "startProxy port s =
     (let s1 = s\<lparr>live := next_pid s # live s,
                  next_pid := Suc (next_pid s),
                  mgr := (mgr s)\<lparr>proxyProcess := Some (next_pid s)\<rparr>\<rparr>;
          s2 = s1\<lparr>mgr := (mgr s1)\<lparr>proxyPort := Some port, isStopped := False\<rparr>\<rparr>
      in suspend StartDelay (setupHealthCheck s2))"

definition startProxy_delayed :: "system \<Rightarrow> system" where
  "startProxy_delayed s =
     (case probe_url (mgr s) of
        None \<Rightarrow> stopProxy s
      | Some url \<Rightarrow> suspend StartProbe s)"

definition startProxy_probed :: "fetch_reply \<Rightarrow> system \<Rightarrow> system" where
  "startProxy_probed r s = (if \<not> probe_result r then stopProxy s else s)"

definition restartProxy :: "system \<Rightarrow> system" where
  "restartProxy s = suspend RestartWait (stopProxy s)"

definition restartProxy_found :: "(nat \<Rightarrow> bind_outcome) \<Rightarrow> system \<Rightarrow> system" where
  "restartProxy_found net s = startProxy (fst (findFreeProxyPort net)) s"

definition ensureProxyAvailable :: "system \<Rightarrow> system" where
  "ensureProxyAvailable s =
     (case probe_url (mgr s) of
        None \<Rightarrow> suspend EnsureFind s
      | Some url \<Rightarrow> suspend EnsureProbe s)"

definition ensure_probed :: "fetch_reply \<Rightarrow> system \<Rightarrow> system" where
  "ensure_probed r s = (if probe_result r then s else suspend EnsureFind s)"

definition ensure_found :: "(nat \<Rightarrow> bind_outcome) \<Rightarrow> system \<Rightarrow> system" where
  "ensure_found net s = startProxy (fst (findFreeProxyPort net)) s"

definition health_tick :: "system \<Rightarrow> system" where
  "health_tick s = (case probe_url (mgr s) of None \<Rightarrow> s | Some url \<Rightarrow> suspend TickProbe s)"

definition tick_probed :: "fetch_reply \<Rightarrow> system \<Rightarrow> system" where
  "tick_probed r s =
     (if \<not> probe_result r \<and> \<not> isStopped (mgr s) then restartProxy s else s)"

definition on_close :: "pid \<Rightarrow> system \<Rightarrow> system" where
  "on_close p s =
     (let s1 = s\<lparr>live := removeAll p (live s),
                  mgr := (mgr s)\<lparr>proxyProcess := None, proxyPort := None\<rparr>\<rparr>
      in if \<not> isStopped (mgr s1) then ensureProxyAvailable s1 else s1)"

datatype event =
    CallEnsure
  | CallStart nat
  | CallStop
  | Close pid
  | Tick timer
  | DelayDone
  | StartProbed fetch_reply
  | RestartFound "nat \<Rightarrow> bind_outcome"
  | EnsureProbed fetch_reply
  | EnsureFound "nat \<Rightarrow> bind_outcome"
  | TickProbed fetch_reply

definition resume :: "task \<Rightarrow> system \<Rightarrow> system option" where
  "resume t s = (if t \<in> set (pending s) then Some (s\<lparr>pending := remove1 t (pending s)\<rparr>) else None)"

fun step :: "event \<Rightarrow> system \<Rightarrow> system option" where
  "step CallEnsure s = Some (ensureProxyAvailable s)"
| "step (CallStart port) s = Some (startProxy port s)"
| "step CallStop s = Some (stopProxy s)"
| "step (Close p) s = (if p \<in> set (live s) then Some (on_close p s) else None)"
| "step (Tick t) s = (if t \<in> set (timers s) then Some (health_tick s) else None)"
| "step DelayDone s = map_option startProxy_delayed (resume StartDelay s)"
| "step (StartProbed r) s = map_option (startProxy_probed r) (resume StartProbe s)"
| "step (RestartFound net) s = map_option (restartProxy_found net) (resume RestartWait s)"
| "step (EnsureProbed r) s = map_option (ensure_probed r) (resume EnsureProbe s)"
| "step (EnsureFound net) s = map_option (ensure_found net) (resume EnsureFind s)"
| "step (TickProbed r) s = map_option (tick_probed r) (resume TickProbe s)"

fun run :: "event list \<Rightarrow> system \<Rightarrow> system option" where
  "run [] s = Some s"
| "run (e # es) s = (case step e s of None \<Rightarrow> None | Some s' \<Rightarrow> run es s')"

inductive reachable :: "system \<Rightarrow> bool" where
  reach_init: "reachable init"
| reach_step: "reachable s \<Longrightarrow> step e s = Some s' \<Longrightarrow> reachable s'"

fun automatic :: "event \<Rightarrow> bool" where
  "automatic CallEnsure = False"
| "automatic (CallStart port) = False"
| "automatic CallStop = False"
| "automatic e = True"

section \<open>Auxiliary notions used in the statements\<close>


text \<open>A list of payloads up to and including the first \<^verbatim>\<open>[DONE]\<close>.\<close>

fun until_done :: "string list \<Rightarrow> string list" where
  "until_done [] = []"
| "until_done (p # ps) = (if p = ''[DONE]'' then [p] else p # until_done ps)"






text \<open>The attached handle belongs to a process whose exit has not been reported.\<close>

definition handle_live :: "system \<Rightarrow> bool" where
  "handle_live s = (\<forall>p. proxyProcess (mgr s) = Some p \<longrightarrow> p \<in> set (live s))"

text \<open>Process ids are handed out in increasing order.\<close>

definition pids_fresh :: "system \<Rightarrow> bool" where
  "pids_fresh s = list_all (\<lambda>p. p < next_pid s) (live s)"

text \<open>
  Nothing that ends in a start is in flight, and the last stop was a deliberate one.
\<close>

definition no_restart_pending :: "system \<Rightarrow> bool" where
  "no_restart_pending s =
     (isStopped (mgr s) \<and> RestartWait \<notin> set (pending s) \<and> EnsureProbe \<notin> set (pending s) \<and>
      EnsureFind \<notin> set (pending s))"

text \<open>
  What is left of a value after \<^verbatim>\<open>JSON.stringify\<close>: a property whose value is
  \<^verbatim>\<open>undefined\<close> is left out, and \<^verbatim>\<open>undefined\<close> in an array and a number that is not
  finite are written as \<^verbatim>\<open>null\<close>.
\<close>

definition finite_number :: "number \<Rightarrow> bool" where
  "finite_number n = (n \<noteq> ''NaN'' \<and> n \<noteq> ''Infinity'' \<and> n \<noteq> ''-Infinity'')"

fun json_norm :: "jsval \<Rightarrow> jsval"
  and json_norm_elems :: "jsval list \<Rightarrow> jsval list"
  and json_norm_members :: "(string \<times> jsval) list \<Rightarrow> (string \<times> jsval) list" where
  "json_norm JUndefined = JNull"
| "json_norm JNull = JNull"
| "json_norm (JBool b) = JBool b"
| "json_norm (JNum n) = (if finite_number n then JNum n else JNull)"
| "json_norm (JStr s) = JStr s"
| "json_norm (JArr xs) = JArr (json_norm_elems xs)"
| "json_norm (JObj fs) = JObj (json_norm_members fs)"
| "json_norm_elems [] = []"
| "json_norm_elems (x # xs) = json_norm x # json_norm_elems xs"
| "json_norm_members [] = []"
| "json_norm_members ((k, v) # fs) =
     (if v = JUndefined then json_norm_members fs else (k, json_norm v) # json_norm_members fs)"

text \<open>Fuel that suffices to read a value back.\<close>

fun cost :: "jsval \<Rightarrow> nat"
  and cost_elems :: "jsval list \<Rightarrow> nat"
  and cost_members :: "(string \<times> jsval) list \<Rightarrow> nat" where
  "cost JUndefined = 1"
| "cost JNull = 1"
| "cost (JBool b) = 1"
| "cost (JNum n) = 1"
| "cost (JStr s) = 1"
| "cost (JArr xs) = Suc (cost_elems xs)"
| "cost (JObj fs) = Suc (cost_members fs)"
| "cost_elems [] = 0"
| "cost_elems (x # xs) = Suc (cost x + cost_elems xs)"
| "cost_members [] = 0"
| "cost_members ((k, v) # fs) = Suc (cost v + cost_members fs)"

text \<open>
  Reading a timestamp back: the date-time string format \<^verbatim>\<open>YYYY-MM-DDTHH:mm:ss.sssZ\<close>, with
  every field in its range. The result holds year, month (1 to 12), day, hours, minutes,
  seconds and milliseconds.
\<close>

definition date_in_range :: "datetime \<Rightarrow> bool" where
  "date_in_range d =
     (getUTCFullYear d < 10000 \<and> getUTCMonth d < 12 \<and> 1 \<le> getUTCDate d \<and> getUTCDate d \<le> 31 \<and>
      getUTCHours d < 24 \<and> getUTCMinutes d < 60 \<and> getUTCSeconds d < 60 \<and>
      getUTCMilliseconds d < 1000)"

definition digit_val :: "char \<Rightarrow> nat" where
  "digit_val c = of_char c - 48"

definition digits_val :: "string \<Rightarrow> nat" where
  "digits_val ds = foldl (\<lambda>a c. 10 * a + digit_val c) 0 ds"

definition take_digits :: "nat \<Rightarrow> string \<Rightarrow> (nat \<times> string) option" where
  "take_digits k s =
     (if length (take k s) = k \<and> list_all is_digit (take k s)
      then Some (digits_val (take k s), drop k s) else None)"

definition expect :: "char \<Rightarrow> string \<Rightarrow> string option" where
  "expect c s = (case s of [] \<Rightarrow> None | x # r \<Rightarrow> if x = c then Some r else None)"

definition parse_iso :: "string \<Rightarrow> (nat \<times> nat \<times> nat \<times> nat \<times> nat \<times> nat \<times> nat) option" where
  "parse_iso s0 =
     Option.bind (take_digits 4 s0) (\<lambda>(y, s1).
     Option.bind (expect (CHR ''-'') s1) (\<lambda>s2.
     Option.bind (take_digits 2 s2) (\<lambda>(mo, s3).
     Option.bind (expect (CHR ''-'') s3) (\<lambda>s4.
     Option.bind (take_digits 2 s4) (\<lambda>(d, s5).
     Option.bind (expect (CHR ''T'') s5) (\<lambda>s6.
     Option.bind (take_digits 2 s6) (\<lambda>(hh, s7).
     Option.bind (expect (CHR '':'') s7) (\<lambda>s8.
     Option.bind (take_digits 2 s8) (\<lambda>(mi, s9).
     Option.bind (expect (CHR '':'') s9) (\<lambda>s10.
     Option.bind (take_digits 2 s10) (\<lambda>(ss, s11).
     Option.bind (expect (CHR ''.'') s11) (\<lambda>s12.
     Option.bind (take_digits 3 s12) (\<lambda>(ms, s13).
       if s13 = ''Z'' \<and> 1 \<le> mo \<and> mo \<le> 12 \<and> 1 \<le> d \<and> d \<le> 31 \<and> hh < 24 \<and> mi < 60 \<and> ss < 60
       then Some (y, mo, d, hh, mi, ss, ms) else None)))))))))))))"

text \<open>
  A value in which every number is spelled as a JSON number or is one of \<^verbatim>\<open>NaN\<close>,
  \<^verbatim>\<open>Infinity\<close> and \<^verbatim>\<open>-Infinity\<close>, as the representation of numbers has it.
\<close>

fun numbers_ok :: "jsval \<Rightarrow> bool"
  and numbers_ok_elems :: "jsval list \<Rightarrow> bool"
  and numbers_ok_members :: "(string \<times> jsval) list \<Rightarrow> bool" where
  "numbers_ok JUndefined = True"
| "numbers_ok JNull = True"
| "numbers_ok (JBool b) = True"
| "numbers_ok (JNum n) = (finite_number n \<longrightarrow> json_number n)"
| "numbers_ok (JStr s) = True"
| "numbers_ok (JArr xs) = numbers_ok_elems xs"
| "numbers_ok (JObj fs) = numbers_ok_members fs"
| "numbers_ok_elems [] = True"
| "numbers_ok_elems (x # xs) = (numbers_ok x \<and> numbers_ok_elems xs)"
| "numbers_ok_members [] = True"
| "numbers_ok_members ((k, v) # fs) = (numbers_ok v \<and> numbers_ok_members fs)"

text \<open>A value that holds neither \<^verbatim>\<open>undefined\<close> nor a number that is not finite.\<close>

fun json_clean :: "jsval \<Rightarrow> bool"
  and json_clean_elems :: "jsval list \<Rightarrow> bool"
  and json_clean_members :: "(string \<times> jsval) list \<Rightarrow> bool" where
  "json_clean JUndefined = False"
| "json_clean JNull = True"
| "json_clean (JBool b) = True"
| "json_clean (JNum n) = finite_number n"
| "json_clean (JStr s) = True"
| "json_clean (JArr xs) = json_clean_elems xs"
| "json_clean (JObj fs) = json_clean_members fs"
| "json_clean_elems [] = True"
| "json_clean_elems (x # xs) = (json_clean x \<and> json_clean_elems xs)"
| "json_clean_members [] = True"
| "json_clean_members ((k, v) # fs) = (json_clean v \<and> json_clean_members fs)"

text \<open>What may follow a number token.\<close>

definition number_end :: "string \<Rightarrow> bool" where
  "number_end rest = (case rest of [] \<Rightarrow> True | c # r \<Rightarrow> \<not> is_num_char c)"

section \<open>Concrete inputs\<close>

definition demo_now :: datetime where
  "demo_now =
     \<lparr>getFullYear = 2025, getMonth = 2, getDate = 9,
      getUTCFullYear = 2025, getUTCMonth = 2, getUTCDate = 9, getUTCHours = 10,
      getUTCMinutes = 15, getUTCSeconds = 30, getUTCMilliseconds = 7\<rparr>"

definition demo_host :: host where
  "demo_host = \<lparr>USERPROFILE = None, HOME = Some ''/home/dev'', clock = (\<lambda>n. demo_now)\<rparr>"

definition demo_data :: jsval where
  "demo_data =
     JObj [(''chunk'', JObj [(''id'', JStr ''c1''), (''created'', JNum ''1700000000'')]),
           (''meta'', JObj [(''model'', JStr ''gpt-4''), (''path'', JStr ''/v1/chat/completions'')])]"

definition lossy_data :: jsval where
  "lossy_data =
     JObj [(''chunk'', JNum ''Infinity''),
           (''meta'', JObj [(''model'', JUndefined), (''path'', JStr ''/v1/chat/completions'')])]"

definition demo_log_file :: path where
  "demo_log_file = [''/home/dev'', ''.orchestrator'', ''logs'', ''2025-03-09.log'']"

definition empty_fs :: filesys where
  "empty_fs = \<lparr>dirs = [], files = [], denied = []\<rparr>"

definition readonly_fs :: filesys where
  "readonly_fs = \<lparr>dirs = [], files = [], denied = [[''/home/dev'', ''.orchestrator'', ''logs'']]\<rparr>"

definition world_with :: "jsval list \<Rightarrow> filesys \<Rightarrow> world" where
  "world_with msgs fs = \<lparr>heap = (\<lambda>a. [])(0 := msgs), next_addr = 1, fsys = fs, time = 0\<rparr>"

definition hi_message :: jsval where
  "hi_message = JObj [(''role'', JStr ''user''), (''content'', JStr ''hi'')]"

definition big_message :: jsval where
  "big_message = JObj [(''role'', JStr ''user''), (''content'', JNum ''1e+21'')]"

definition odd_message :: jsval where
  "odd_message = JObj [(''role'', JStr ''user''), (''content'', JObj [(''toString'', JNum ''1'')])]"

definition demo_meta :: jsval where
  "demo_meta = JObj [(''model'', JStr ''gpt-4''), (''path'', JStr ''/v1/chat/completions'')]"

definition demo_request :: request where
  "demo_request =
     \<lparr>req_body = \<lparr>rb_fields = [(''model'', JStr ''gpt-4''), (''messages'', JArr []),
                                (''stream'', JBool False)],
                  rb_messages = Some 0\<rparr>,
      req_headers = [(''authorization'', JStr ''Bearer sk-test'')],
      req_ip = JStr ''127.0.0.1'',
      req_path = ''/v1/chat/completions'',
      req_method = ''POST''\<rparr>"


definition echo_upstream :: "jsval \<Rightarrow> upstream_response option" where
  "echo_upstream b =
     Some \<lparr>up_ok = True, up_status = 200, up_text = [], up_json = Some b, up_events = None\<rparr>"


definition data_event :: "string \<Rightarrow> sse_event" where
  "data_event d = \<lparr>ev_type = ''event'', ev_data = d\<rparr>"

text \<open>A transformer that throws on one payload and returns every other payload as it is.\<close>

definition failing_on :: "string \<Rightarrow> response_fn" where
  "failing_on bad w chunk meta = (if chunk = JStr bad then (Inl TypeError, w) else (Inr chunk, w))"

definition free_net :: "nat \<Rightarrow> bind_outcome" where
  "free_net p = Listening"

definition refused :: fetch_reply where
  "refused = Rejected"

definition healthy :: fetch_reply where
  "healthy = Replied \<lparr>reply_ok = True, reply_status = 200, elapsed_ms = 12\<rparr>"

definition double_start_prefix :: "event list" where
  "double_start_prefix =
     [CallEnsure, EnsureFound free_net, DelayDone, StartProbed healthy, Tick 0, Close 0,
      TickProbed refused, EnsureFound free_net]"

definition attached_state :: system where
  "attached_state =
     \<lparr>mgr = \<lparr>proxyPort = Some 7001, proxyProcess = Some 1, healthCheckInterval = Some 1,
              isStopped = False\<rparr>,
      live = [1], killed = [], next_pid = 2, timers = [1], next_timer = 2,
      pending = [RestartWait, StartDelay]\<rparr>"

definition doubled_state :: system where
  "doubled_state =
     \<lparr>mgr = \<lparr>proxyPort = Some 7001, proxyProcess = Some 2, healthCheckInterval = Some 2,
              isStopped = False\<rparr>,
      live = [2, 1], killed = [], next_pid = 3, timers = [2], next_timer = 3,
      pending = [StartDelay, StartDelay]\<rparr>"

definition stopped_state :: system where
  "stopped_state =
     \<lparr>mgr = \<lparr>proxyPort = None, proxyProcess = None, healthCheckInterval = None,
              isStopped = True\<rparr>,
      live = [1], killed = [1], next_pid = 2, timers = [], next_timer = 2,
      pending = [RestartWait, StartDelay]\<rparr>"

definition restarted_state :: system where
  "restarted_state =
     \<lparr>mgr = \<lparr>proxyPort = Some 7001, proxyProcess = Some 2, healthCheckInterval = Some 2,
              isStopped = False\<rparr>,
      live = [2, 1], killed = [1], next_pid = 3, timers = [2], next_timer = 3,
      pending = [StartDelay, StartDelay]\<rparr>"

definition slow_reply :: "string \<Rightarrow> fetch_reply" where
  "slow_reply url = Replied \<lparr>reply_ok = True, reply_status = 200, elapsed_ms = 60000\<rparr>"

section \<open>Properties of the port scan\<close>

lemma isPortFree_True: "isPortFree net p = Inr True \<longleftrightarrow> net p = Listening"
  by (simp add: isPortFree_def split: bind_outcome.splits)

lemma scan_ports_find:
  "port \<le> 7011 \<Longrightarrow> scan_ports net port =
     (case List.find (\<lambda>p. net p = Listening) [port..<7011] of
        Some p \<Rightarrow> (p, [port..<Suc p])
      | None \<Rightarrow> (7001, [port..<7011]))"
proof (induction "7011 - port" arbitrary: port)
  case 0
  then have "port = 7011" by simp
  then show ?case by (simp add: scan_ports.simps)
next
  case (Suc k)
  then have le: "port \<le> 7010" by simp
  then have upt: "[port..<7011] = port # [Suc port..<7011]"
    by (simp add: upt_conv_Cons)
  show ?case
  proof (cases "net port = Listening")
    case True
    then have "isPortFree net port = Inr True" by (simp add: isPortFree_True)
    with le True upt show ?thesis
      by (simp add: scan_ports.simps[of net port])
  next
    case False
    have ih: "scan_ports net (Suc port) =
       (case List.find (\<lambda>p. net p = Listening) [Suc port..<7011] of
          Some p \<Rightarrow> (p, [Suc port..<Suc p])
        | None \<Rightarrow> (7001, [Suc port..<7011]))"
      using Suc.hyps(1)[of "Suc port"] Suc.hyps(2) le by simp
    have lower: "\<And>p. List.find (\<lambda>p. net p = Listening) [Suc port..<7011] = Some p \<Longrightarrow> port < p"
      by (auto simp: find_Some_iff)
    from False have "isPortFree net port = Inr False \<or> isPortFree net port = Inl NetError"
      by (cases "net port") (simp_all add: isPortFree_def)
    then show ?thesis
      using le False upt ih lower
      by (auto simp: scan_ports.simps[of net port] upt_conv_Cons split: option.splits)
  qed
qed

text \<open>
  C6. \<^verbatim>\<open>findFreeProxyPort\<close> probes the ports 7001, 7002, ... in ascending order, stops at
  the first port on which the listening socket is bound and returns it, having probed
  exactly the ports from 7001 up to it; when no port from 7001 to 7010 can be bound it has
  probed all ten and returns 7001. It never fails: a probe that throws counts as busy.
\<close>

theorem findFreeProxyPort_first_free:
  "findFreeProxyPort net =
     (case List.find (\<lambda>p. net p = Listening) [7001..<7011] of
        Some p \<Rightarrow> (p, [7001..<Suc p])
      | None \<Rightarrow> (7001, [7001..<7011]))"
  unfolding findFreeProxyPort_def by (rule scan_ports_find) simp

section \<open>Properties of the transformer\<close>

lemma logRequest_heap: "logRequest h ph d w = (r, w') \<Longrightarrow> heap w' = heap w"
  by (auto simp: logRequest_def Let_def split: sum.splits if_splits)

lemma logRequest_cases:
  "(\<exists>e w1. logRequest h ph d w = (Inl e, w1)) \<or> (\<exists>w1. logRequest h ph d w = (Inr (), w1))"
  by (metis (full_types) old.unit.exhaust sum.exhaust_sel surj_pair sum.collapse)

lemma processPrompt_logged:
  assumes "logRequest h Inbound (JObj [(''messages'', JArr (heap w a)), (''meta'', meta)]) w = (Inr (), w1)"
  shows "processPrompt h w a meta =
     (case heap w a of
        [] \<Rightarrow> (Inr a, w1)
      | m # ms \<Rightarrow>
          (case get_content m of
             Inl e \<Rightarrow> (Inl e, w1)
           | Inr c \<Rightarrow>
               if truthy c
               then (case to_string c of
                       Inl e \<Rightarrow> (Inl e, w1)
                     | Inr str \<Rightarrow>
                         (Inr a, w1\<lparr>heap := (heap w)(a := set_content m (JStr (''[DEBUG] '' @ str)) # ms)\<rparr>))
               else (Inr a, w1)))"
  using assms logRequest_heap[OF assms]
  by (simp add: processPrompt_def Let_def split: list.splits sum.splits)

lemma processPrompt_failed:
  assumes "logRequest h Inbound (JObj [(''messages'', JArr (heap w a)), (''meta'', meta)]) w = (Inl e, w1)"
  shows "processPrompt h w a meta = (Inl e, w1)"
  using assms by (simp add: processPrompt_def)

lemma processResponse_logged:
  "logRequest h Outbound (JObj [(''chunk'', chunk), (''meta'', meta)]) w = (Inr (), w1)
   \<Longrightarrow> processResponse h w chunk meta = (Inr chunk, w1)"
  by (simp add: processResponse_def)

lemma processResponse_failed:
  "logRequest h Outbound (JObj [(''chunk'', chunk), (''meta'', meta)]) w = (Inl e, w1)
   \<Longrightarrow> processResponse h w chunk meta = (Inl e, w1)"
  by (simp add: processResponse_def)

lemma processResponse_heap: "processResponse h w chunk meta = (r, w') \<Longrightarrow> heap w' = heap w"
  by (auto simp: processResponse_def split: prod.splits sum.splits dest: logRequest_heap)

lemma processPrompt_other_arrays:
  "processPrompt h w a meta = (r, w') \<Longrightarrow> b \<noteq> a \<Longrightarrow> heap w' b = heap w b"
  by (auto simp: processPrompt_def Let_def split: prod.splits sum.splits if_splits
      dest: logRequest_heap)

text \<open>The demonstration host has a home directory and an empty, writable file system.\<close>

lemma log_dir_demo: "log_dir demo_host = [''/home/dev'', ''.orchestrator'', ''logs'']"
  by (simp add: log_dir_def demo_host_def path_join_def or_else_def)

lemma logRequest_demo_ok:
  "\<exists>w1. logRequest demo_host ph d (world_with msgs empty_fs) = (Inr (), w1)"
  by (simp add: logRequest_def Let_def log_dir_demo world_with_def empty_fs_def existsSync_def
      mkdirSync_def appendFileSync_def split: sum.splits)

lemma logRequest_demo_denied:
  "logRequest demo_host ph d (world_with msgs readonly_fs) = (Inl FsError, world_with msgs readonly_fs)"
  by (simp add: logRequest_def Let_def log_dir_demo world_with_def readonly_fs_def existsSync_def
      mkdirSync_def)

text \<open>
  C3 as stated (the default transformer returns the messages unchanged) fails: for the
  single message \<^verbatim>\<open>{role: "user", content: "hi"}\<close> the array that \<^verbatim>\<open>processPrompt\<close>
  returns holds the content \<^verbatim>\<open>"[DEBUG] hi"\<close>.
\<close>

theorem processPrompt_prefix_counterexample:
  "fst (processPrompt demo_host (world_with [hi_message] empty_fs) 0 demo_meta) = Inr 0 \<and>
   heap (snd (processPrompt demo_host (world_with [hi_message] empty_fs) 0 demo_meta)) 0
     = [JObj [(''role'', JStr ''user''), (''content'', JStr ''[DEBUG] hi'')]] \<and>
   heap (snd (processPrompt demo_host (world_with [hi_message] empty_fs) 0 demo_meta)) 0
     \<noteq> heap (world_with [hi_message] empty_fs) 0"
proof -
  define W where "W = world_with [hi_message] empty_fs"
  have hw: "heap W 0 = [hi_message]"
    by (simp add: W_def world_with_def)
  obtain w1 where l: "logRequest demo_host Inbound
      (JObj [(''messages'', JArr (heap W 0)), (''meta'', demo_meta)]) W = (Inr (), w1)"
    unfolding W_def using logRequest_demo_ok by blast
  have "processPrompt demo_host W 0 demo_meta =
      (Inr 0, w1\<lparr>heap := (heap W)(0 := [JObj [(''role'', JStr ''user''), (''content'', JStr ''[DEBUG] hi'')]])\<rparr>)"
    by (simp add: processPrompt_logged[OF l] hw hi_message_def)
  then show ?thesis
    unfolding W_def[symmetric] by (simp add: hw hi_message_def)
qed

text \<open>
  C3, amended. Whenever \<^verbatim>\<open>processResponse\<close> returns, it returns the payload it was given and
  no array of the store has changed. Whenever \<^verbatim>\<open>processPrompt\<close> returns, it returns the array
  it was given and every other array is unchanged; the given array is unchanged when it is
  empty or when the content of its first element is falsy, and otherwise it differs from
  what it was in the first element only, whose content has become \<^verbatim>\<open>"[DEBUG] "\<close> followed by
  the string that the template literal makes of the old content.
\<close>

theorem adapter_passes_through_except_prefix:
  "(processResponse h w chunk meta = (Inr r, w') \<longrightarrow> r = chunk \<and> heap w' = heap w) \<and>
   (processPrompt h v a meta = (Inr r', v') \<longrightarrow>
      r' = a \<and> (\<forall>b. b \<noteq> a \<longrightarrow> heap v' b = heap v b) \<and>
      (heap v a = [] \<and> heap v' a = [] \<or>
       (\<exists>m ms c. heap v a = m # ms \<and> get_content m = Inr c \<and>
          (\<not> truthy c \<and> heap v' a = m # ms \<or>
           truthy c \<and> (\<exists>str. to_string c = Inr str \<and>
              heap v' a = set_content m (JStr (''[DEBUG] '' @ str)) # ms)))))"
proof (intro conjI impI)
  assume pr: "processResponse h w chunk meta = (Inr r, w')"
  then show "r = chunk"
    by (auto simp: processResponse_def split: prod.splits sum.splits)
  from pr show "heap w' = heap w" by (rule processResponse_heap)
next
  assume pp: "processPrompt h v a meta = (Inr r', v')"
  from logRequest_cases[of h Inbound "JObj [(''messages'', JArr (heap v a)), (''meta'', meta)]" v] pp
  obtain w1 where
    l: "logRequest h Inbound (JObj [(''messages'', JArr (heap v a)), (''meta'', meta)]) v = (Inr (), w1)"
    by (auto simp: processPrompt_failed)
  have hw: "heap w1 = heap v" using logRequest_heap[OF l] .
  from pp show "r' = a"
    unfolding processPrompt_logged[OF l] by (auto split: list.splits sum.splits if_splits)
  from pp show "\<forall>b. b \<noteq> a \<longrightarrow> heap v' b = heap v b"
    using processPrompt_other_arrays by blast
  show "heap v a = [] \<and> heap v' a = [] \<or>
       (\<exists>m ms c. heap v a = m # ms \<and> get_content m = Inr c \<and>
          (\<not> truthy c \<and> heap v' a = m # ms \<or>
           truthy c \<and> (\<exists>str. to_string c = Inr str \<and>
              heap v' a = set_content m (JStr (''[DEBUG] '' @ str)) # ms)))"
  proof (cases "heap v a")
    case Nil
    with pp hw show ?thesis
      unfolding processPrompt_logged[OF l] by auto
  next
    case (Cons m ms)
    with pp obtain c where c: "get_content m = Inr c"
      unfolding processPrompt_logged[OF l] by (auto split: sum.splits)
    show ?thesis
    proof (cases "truthy c")
      case False
      with pp hw Cons c show ?thesis
        unfolding processPrompt_logged[OF l] by auto
    next
      case True
      with pp Cons c obtain str where t: "to_string c = Inr str"
        unfolding processPrompt_logged[OF l] by (auto split: sum.splits)
      with pp hw Cons c True show ?thesis
        unfolding processPrompt_logged[OF l] by auto
    qed
  qed
qed

text \<open>
  On the message \<^verbatim>\<open>{role: "user", content: 1e21}\<close> the new content is
  \<^verbatim>\<open>"[DEBUG] 1e+21"\<close>; a payload comes back as it was.
\<close>

theorem adapter_passes_through_witness:
  "fst (processResponse demo_host (world_with [] empty_fs) (JStr ''chunk'') demo_meta) = Inr (JStr ''chunk'') \<and>
   fst (processPrompt demo_host (world_with [big_message] empty_fs) 0 demo_meta) = Inr 0 \<and>
   heap (snd (processPrompt demo_host (world_with [big_message] empty_fs) 0 demo_meta)) 0
     = [JObj [(''role'', JStr ''user''), (''content'', JStr ''[DEBUG] 1e+21'')]]"
proof -
  define W where "W = world_with [] empty_fs"
  define V where "V = world_with [big_message] empty_fs"
  have hv: "heap V 0 = [big_message]" by (simp add: V_def world_with_def)
  obtain w' where pr: "processResponse demo_host W (JStr ''chunk'') demo_meta = (Inr (JStr ''chunk''), w')"
    unfolding W_def using logRequest_demo_ok processResponse_logged by blast
  obtain w1 where l: "logRequest demo_host Inbound
      (JObj [(''messages'', JArr (heap V 0)), (''meta'', demo_meta)]) V = (Inr (), w1)"
    unfolding V_def using logRequest_demo_ok by blast
  obtain v' where pp: "processPrompt demo_host V 0 demo_meta = (Inr 0, v')"
    by (simp add: processPrompt_logged[OF l] hv big_message_def)
  from adapter_passes_through_except_prefix[where h = demo_host and w = W and chunk = "JStr ''chunk''"
      and meta = demo_meta and r = "JStr ''chunk''" and w' = w' and v = V and a = 0 and r' = 0 and v' = v']
    pr pp hv
  show ?thesis unfolding W_def[symmetric] V_def[symmetric] by (auto simp: big_message_def)
qed

lemma map_of_set_field: "map_of (set_field k v fs) k = Some v"
  by (induction fs) auto

lemma get_content_set_content:
  assumes "get_content m = Inr c" and "truthy c"
  shows "get_content (set_content m v) = Inr v"
  using assms by (cases m) (auto simp: map_of_set_field)

lemma prefixed_differs:
  assumes "to_string c = Inr str"
  shows "JStr (''[DEBUG] '' @ str) \<noteq> c"
proof (cases c)
  case (JStr s)
  with assms have "str = s" by simp
  moreover have "length (''[DEBUG] '' @ s) \<noteq> length s" by simp
  then have "''[DEBUG] '' @ s \<noteq> s" by metis
  ultimately show ?thesis using JStr by simp
qed simp_all

lemma on_event_heap:
  "heap (fst (on_event (processResponse h) meta ev (w, queue))) = heap w"
  by (auto simp: on_event_def split: prod.splits dest: processResponse_heap)

lemma events_heap:
  "heap (fst (fold (on_event (processResponse h) meta) evs (w, queue))) = heap w"
proof (induction evs arbitrary: w queue)
  case Nil
  show ?case by simp
next
  case (Cons ev evs)
  obtain w1 q1 where s: "on_event (processResponse h) meta ev (w, queue) = (w1, q1)"
    by (cases "on_event (processResponse h) meta ev (w, queue)") auto
  with on_event_heap[of h meta ev w queue] have "heap w1 = heap w" by simp
  with Cons.IH[of w1 q1] s show ?case by simp
qed

lemma feed_heap:
  "heap (fst (feed (processResponse h) meta chunk (w, res))) = heap w"
  using events_heap[of h meta chunk w "[]"] by (auto simp: feed_def split: prod.splits)

lemma relay_heap:
  "relay (processResponse h) meta chunks (w, res) = (w', res') \<Longrightarrow> heap w' = heap w"
  unfolding relay_def
proof (induction chunks arbitrary: w res)
  case Nil
  then show ?case by simp
next
  case (Cons chunk chunks)
  obtain w1 res1 where s: "feed (processResponse h) meta chunk (w, res) = (w1, res1)"
    by (cases "feed (processResponse h) meta chunk (w, res)") auto
  with feed_heap[of h meta chunk w res] have "heap w1 = heap w" by simp
  moreover from Cons.prems s have "fold (feed (processResponse h) meta) chunks (w1, res1) = (w', res')"
    by simp
  then have "heap w' = heap w1" by (rule Cons.IH)
  ultimately show ?case by simp
qed

lemma chat_completions_after_prompt:
  assumes "rb_messages (req_body req) = Some a"
    and "processPrompt h w a (make_meta req) = (Inr a', w1)"
  shows "forwarded (chat_completions h fetch req w)
           = [JObj (set_field ''messages'' (JArr (heap w1 a')) (rb_fields (req_body req)))] \<and>
         heap (final (chat_completions h fetch req w)) = heap w1"
  using assms
  by (auto simp: chat_completions_def chat_completions_with_def messages_or_new_def Let_def
      split: option.splits prod.splits sum.splits dest: relay_heap processResponse_heap)

text \<open>
  C10 as stated (every first element that has a content field is overwritten) fails for a
  content that is present but falsy: for the single message \<^verbatim>\<open>{role: "user", content: ""}\<close>
  the field exists, \<^verbatim>\<open>processPrompt\<close> returns, and the array is what it was.
\<close>

theorem empty_content_counterexample:
  "map_of [(''role'', JStr ''user''), (''content'', JStr '''')] ''content'' = Some (JStr '''') \<and>
   fst (processPrompt demo_host
          (world_with [JObj [(''role'', JStr ''user''), (''content'', JStr '''')]] empty_fs) 0 demo_meta)
     = Inr 0 \<and>
   heap (snd (processPrompt demo_host
          (world_with [JObj [(''role'', JStr ''user''), (''content'', JStr '''')]] empty_fs) 0 demo_meta)) 0
     = [JObj [(''role'', JStr ''user''), (''content'', JStr '''')]]"
proof -
  define W where "W = world_with [JObj [(''role'', JStr ''user''), (''content'', JStr '''')]] empty_fs"
  have hw: "heap W 0 = [JObj [(''role'', JStr ''user''), (''content'', JStr '''')]]"
    by (simp add: W_def world_with_def)
  obtain w1 where l: "logRequest demo_host Inbound
      (JObj [(''messages'', JArr (heap W 0)), (''meta'', demo_meta)]) W = (Inr (), w1)"
    unfolding W_def using logRequest_demo_ok by blast
  have "processPrompt demo_host W 0 demo_meta = (Inr 0, w1)"
    by (simp add: processPrompt_logged[OF l] hw)
  then show ?thesis
    unfolding W_def[symmetric] using logRequest_heap[OF l] by (simp add: hw)
qed

text \<open>
  C10, amended. Let the messages array be non-empty, let the content of its first element
  be truthy (not absent, \<^verbatim>\<open>null\<close>, \<^verbatim>\<open>false\<close>, \<^verbatim>\<open>0\<close>, \<^verbatim>\<open>NaN\<close> or the empty string), let
  the template literal convert it to the string \<open>str\<close> (as it does every string, number
  and boolean; it cannot convert an object that has a property \<^verbatim>\<open>toString\<close> of its
  own), and let the inbound log entry be written. Then
  \<^verbatim>\<open>processPrompt\<close> returns the very array it was given and has overwritten, in that array,
  the content of the first element with \<^verbatim>\<open>"[DEBUG] "\<close> followed by \<open>str\<close>, which differs
  from the old content. The request body of the route refers to the same array: what the
  route forwards upstream carries the new content, and when the route is done the array
  of the caller's request body still holds the new content and no longer the old one.
\<close>

theorem processPrompt_mutates_in_place:
  assumes "heap w a = m # ms" and "get_content m = Inr c" and "truthy c"
    and "to_string c = Inr str"
    and "fst (logRequest h Inbound
               (JObj [(''messages'', JArr (heap w a)), (''meta'', make_meta req)]) w) = Inr ()"
    and "rb_messages (req_body req) = Some a"
  shows "fst (processPrompt h w a (make_meta req)) = Inr a \<and>
         heap (snd (processPrompt h w a (make_meta req))) a
           = set_content m (JStr (''[DEBUG] '' @ str)) # ms \<and>
         get_content (set_content m (JStr (''[DEBUG] '' @ str)))
           = Inr (JStr (''[DEBUG] '' @ str)) \<and>
         JStr (''[DEBUG] '' @ str) \<noteq> c \<and>
         forwarded (chat_completions h fetch req w)
           = [JObj (set_field ''messages'' (JArr (set_content m (JStr (''[DEBUG] '' @ str)) # ms))
                      (rb_fields (req_body req)))] \<and>
         heap (final (chat_completions h fetch req w)) a
           = set_content m (JStr (''[DEBUG] '' @ str)) # ms"
proof -
  obtain w1 where l: "logRequest h Inbound
      (JObj [(''messages'', JArr (heap w a)), (''meta'', make_meta req)]) w = (Inr (), w1)"
    using assms(5) by (metis prod.collapse)
  have pp: "processPrompt h w a (make_meta req) =
      (Inr a, w1\<lparr>heap := (heap w)(a := set_content m (JStr (''[DEBUG] '' @ str)) # ms)\<rparr>)"
    by (simp add: processPrompt_logged[OF l] assms(1-4))
  from chat_completions_after_prompt[OF assms(6) pp, of fetch] pp
    get_content_set_content[OF assms(2,3)] prefixed_differs[OF assms(4)]
  show ?thesis by simp
qed

theorem processPrompt_mutates_in_place_witness:
  "fst (processPrompt demo_host (world_with [hi_message] empty_fs) 0 (make_meta demo_request)) = Inr 0 \<and>
   heap (snd (processPrompt demo_host (world_with [hi_message] empty_fs) 0 (make_meta demo_request))) 0
     = [JObj [(''role'', JStr ''user''), (''content'', JStr ''[DEBUG] hi'')]] \<and>
   forwarded (chat_completions demo_host echo_upstream demo_request (world_with [hi_message] empty_fs))
     = [JObj [(''model'', JStr ''gpt-4''),
              (''messages'', JArr [JObj [(''role'', JStr ''user''), (''content'', JStr ''[DEBUG] hi'')]]),
              (''stream'', JBool False)]] \<and>
   heap (final (chat_completions demo_host echo_upstream demo_request (world_with [hi_message] empty_fs))) 0
     = [JObj [(''role'', JStr ''user''), (''content'', JStr ''[DEBUG] hi'')]]"
proof -
  define W where "W = world_with [hi_message] empty_fs"
  have hw: "heap W 0 = hi_message # []" by (simp add: W_def world_with_def)
  have gc: "get_content hi_message = Inr (JStr ''hi'')" by (simp add: hi_message_def)
  have tr: "truthy (JStr ''hi'')" by simp
  have ts: "to_string (JStr ''hi'') = Inr ''hi''" by simp
  have lg: "fst (logRequest demo_host Inbound
               (JObj [(''messages'', JArr (heap W 0)), (''meta'', make_meta demo_request)]) W) = Inr ()"
    unfolding W_def using logRequest_demo_ok[of Inbound _ "[hi_message]"] by (metis fst_conv)
  have rb: "rb_messages (req_body demo_request) = Some 0" by (simp add: demo_request_def)
  from processPrompt_mutates_in_place[OF hw gc tr ts lg rb, of echo_upstream]
  show ?thesis
    unfolding W_def[symmetric] by (simp add: hi_message_def demo_request_def)
qed

text \<open>
  Outside the amended C10: a truthy content that the template literal cannot convert. For
  the message \<^verbatim>\<open>{role: "user", content: {toString: 1}}\<close> the conversion throws a
  TypeError after the log entry was written; the array is what it was.
\<close>

lemma unprintable_content_throws:
  "fst (processPrompt demo_host (world_with [odd_message] empty_fs) 0 demo_meta) = Inl TypeError \<and>
   heap (snd (processPrompt demo_host (world_with [odd_message] empty_fs) 0 demo_meta)) 0
     = [odd_message]"
proof -
  define W where "W = world_with [odd_message] empty_fs"
  have hw: "heap W 0 = [odd_message]" by (simp add: W_def world_with_def)
  obtain w1 where l: "logRequest demo_host Inbound
      (JObj [(''messages'', JArr (heap W 0)), (''meta'', demo_meta)]) W = (Inr (), w1)"
    unfolding W_def using logRequest_demo_ok by blast
  have "processPrompt demo_host W 0 demo_meta = (Inl TypeError, w1)"
    by (simp add: processPrompt_logged[OF l] hw odd_message_def)
  then show ?thesis
    unfolding W_def[symmetric] using logRequest_heap[OF l] by (simp add: hw)
qed

section \<open>Properties of the chat-completions route\<close>

lemma prompt_error_outcome:
  assumes "fst (pp (snd (messages_or_new (req_body req) w))
                  (fst (messages_or_new (req_body req) w)) (make_meta req)) = Inl e"
  shows "resp (chat_completions_with pp pr fetch req w)
           = \<lparr>statusCode = 500, headers = [], body = [''Internal Server Error''], ended = True\<rparr> \<and>
         forwarded (chat_completions_with pp pr fetch req w) = []"
  using assms
  by (auto simp: chat_completions_with_def Let_def internal_error_def res_send_def res_write_def
      res_end_def res_status_def fresh_response_def split: prod.splits sum.splits)

text \<open>
  C2. The claim (a throwing \<^verbatim>\<open>processPrompt\<close> is caught and the original body is forwarded)
  is not what the route does: the \<^verbatim>\<open>await\<close> of \<^verbatim>\<open>processPrompt\<close> stands directly in the
  route's outer \<^verbatim>\<open>try\<close>, so for every transformer and every request on which
  \<^verbatim>\<open>processPrompt\<close> throws, the caller is answered 500 "Internal Server Error" and nothing is
  sent upstream.
\<close>

theorem throwing_processPrompt_answers_500:
  assumes "fst (pp (snd (messages_or_new (req_body req) w))
                  (fst (messages_or_new (req_body req) w)) (make_meta req)) = Inl e"
  shows "resp (chat_completions_with pp pr fetch req w)
           = \<lparr>statusCode = 500, headers = [], body = [''Internal Server Error''], ended = True\<rparr> \<and>
         forwarded (chat_completions_with pp pr fetch req w) = []"
  using assms by (rule prompt_error_outcome)

text \<open>
  The request \<^verbatim>\<open>{model: "gpt-4", stream: false, messages: [null]}\<close> on a writable file system:
  reading \<^verbatim>\<open>messages[0].content\<close> throws a TypeError in the default transformer.
\<close>

theorem throwing_processPrompt_witness:
  "fst (processPrompt demo_host (world_with [JNull] empty_fs) 0 (make_meta demo_request)) = Inl TypeError \<and>
   resp (chat_completions demo_host echo_upstream demo_request (world_with [JNull] empty_fs))
     = \<lparr>statusCode = 500, headers = [], body = [''Internal Server Error''], ended = True\<rparr> \<and>
   forwarded (chat_completions demo_host echo_upstream demo_request (world_with [JNull] empty_fs)) = []"
proof -
  define W where "W = world_with [JNull] empty_fs"
  have hw: "heap W 0 = [JNull]" by (simp add: W_def world_with_def)
  obtain w1 where l: "logRequest demo_host Inbound
      (JObj [(''messages'', JArr (heap W 0)), (''meta'', make_meta demo_request)]) W = (Inr (), w1)"
    unfolding W_def using logRequest_demo_ok by blast
  have pp: "processPrompt demo_host W 0 (make_meta demo_request) = (Inl TypeError, w1)"
    by (simp add: processPrompt_logged[OF l] hw)
  have m: "messages_or_new (req_body demo_request) W = (0, W)"
    by (simp add: messages_or_new_def demo_request_def)
  have "fst (processPrompt demo_host (snd (messages_or_new (req_body demo_request) W))
              (fst (messages_or_new (req_body demo_request) W)) (make_meta demo_request)) = Inl TypeError"
    by (simp add: m pp)
  with throwing_processPrompt_answers_500[where pp = "processPrompt demo_host" and req = demo_request
      and w = W and e = TypeError and pr = "processResponse demo_host" and fetch = echo_upstream] pp
  show ?thesis unfolding W_def[symmetric] chat_completions_def by simp
qed

text \<open>
  C8. The claim (a logging failure degrades to a console message and never fails the
  request) is not what the cited revision of \<^verbatim>\<open>logRequest\<close> does: it has no \<^verbatim>\<open>try\<close>, so a
  failure of \<^verbatim>\<open>mkdirSync\<close> or \<^verbatim>\<open>appendFileSync\<close> is thrown out of \<^verbatim>\<open>processPrompt\<close>
  and the route answers 500 without calling upstream.
\<close>

theorem logging_failure_fails_request:
  assumes "fst (logRequest h Inbound
                 (JObj [(''messages'', JArr (heap w a)), (''meta'', make_meta req)]) w) = Inl e"
    and "rb_messages (req_body req) = Some a"
  shows "fst (processPrompt h w a (make_meta req)) = Inl e \<and>
         resp (chat_completions h fetch req w)
           = \<lparr>statusCode = 500, headers = [], body = [''Internal Server Error''], ended = True\<rparr> \<and>
         forwarded (chat_completions h fetch req w) = []"
proof -
  obtain w1 where l: "logRequest h Inbound
      (JObj [(''messages'', JArr (heap w a)), (''meta'', make_meta req)]) w = (Inl e, w1)"
    using assms(1) by (metis prod.collapse)
  have pp: "processPrompt h w a (make_meta req) = (Inl e, w1)"
    by (rule processPrompt_failed[OF l])
  have m: "messages_or_new (req_body req) w = (a, w)"
    by (simp add: messages_or_new_def assms(2))
  have "fst (processPrompt h (snd (messages_or_new (req_body req) w))
              (fst (messages_or_new (req_body req) w)) (make_meta req)) = Inl e"
    by (simp add: m pp)
  with prompt_error_outcome[where pp = "processPrompt h" and req = req and w = w and e = e
      and pr = "processResponse h" and fetch = fetch] pp
  show ?thesis unfolding chat_completions_def by simp
qed

text \<open>The same request on a file system that refuses to create the log directory.\<close>

theorem logging_failure_witness:
  "fst (logRequest demo_host Inbound
         (JObj [(''messages'', JArr [hi_message]), (''meta'', make_meta demo_request)])
         (world_with [hi_message] readonly_fs)) = Inl FsError \<and>
   resp (chat_completions demo_host echo_upstream demo_request (world_with [hi_message] readonly_fs))
     = \<lparr>statusCode = 500, headers = [], body = [''Internal Server Error''], ended = True\<rparr> \<and>
   forwarded (chat_completions demo_host echo_upstream demo_request (world_with [hi_message] readonly_fs)) = []"
proof -
  define W where "W = world_with [hi_message] readonly_fs"
  have hw: "heap W 0 = [hi_message]" by (simp add: W_def world_with_def)
  have l: "fst (logRequest demo_host Inbound
      (JObj [(''messages'', JArr (heap W 0)), (''meta'', make_meta demo_request)]) W) = Inl FsError"
    unfolding W_def by (simp add: logRequest_demo_denied)
  have rb: "rb_messages (req_body demo_request) = Some 0" by (simp add: demo_request_def)
  from logging_failure_fails_request[OF l rb, of echo_upstream] l
  show ?thesis unfolding W_def[symmetric] by (simp add: hw)
qed

subsection \<open>The streaming relay\<close>

lemma sse_frame_inject: "sse_frame a = sse_frame b \<longleftrightarrow> a = b"
  by (simp add: sse_frame_def)

lemma sse_response_fresh: "\<not> ended sse_response \<and> body sse_response = []"
  by (simp add: sse_response_def res_setHeader_def fresh_response_def)






lemma until_done_subset: "set (until_done ps) \<subseteq> set ps"
  by (induction ps) auto


lemma until_done_none: "''[DONE]'' \<notin> set ps \<Longrightarrow> until_done ps = ps"
  by (induction ps) auto



















text \<open>
  What the relay does when \<^verbatim>\<open>processResponse\<close> throws, on a transformer that throws on
  one payload. The unprocessed payload is written by the \<^verbatim>\<open>.catch\<close> handler, which runs
  after the \<^verbatim>\<open>.then\<close> handlers of the later events of the same chunk: it is written after
  them, and it is not written at all when one of them has ended the response. A sentinel
  on which the transformer throws is written, but does not end the response: what
  upstream sends later is still written.
\<close>

lemma rejected_payload_written_late:
  "body (snd (relay (failing_on ''a'') meta [[data_event ''a'', data_event ''b'']] (w, sse_response)))
     = [sse_frame ''b'', sse_frame ''a'']"
  by (simp add: relay_def feed_def on_event_def failing_on_def data_event_def res_write_def
      res_end_def sse_response_fresh Let_def)

lemma rejected_payload_lost_after_close:
  "body (snd (relay (failing_on ''a'') meta [[data_event ''a'', data_event ''[DONE]'']] (w, sse_response)))
     = [sse_frame ''[DONE]''] \<and>
   ended (snd (relay (failing_on ''a'') meta [[data_event ''a'', data_event ''[DONE]'']] (w, sse_response)))"
  by (simp add: relay_def feed_def on_event_def failing_on_def data_event_def res_write_def
      res_end_def sse_response_fresh Let_def)

lemma rejected_sentinel_does_not_close:
  "body (snd (relay (failing_on ''[DONE]'') meta [[data_event ''[DONE]''], [data_event ''late'']]
            (w, sse_response)))
     = [sse_frame ''[DONE]'', sse_frame ''late''] \<and>
   \<not> ended (snd (relay (failing_on ''[DONE]'') meta [[data_event ''[DONE]''], [data_event ''late'']]
            (w, sse_response)))"
  by (simp add: relay_def feed_def on_event_def failing_on_def data_event_def res_write_def
      res_end_def sse_response_fresh Let_def)




section \<open>Properties of the supervisor\<close>

lemmas sup_defs = init_def clear_health_check_def stopProxy_def setupHealthCheck_def suspend_def
  startProxy_def startProxy_delayed_def startProxy_probed_def restartProxy_def restartProxy_found_def
  ensureProxyAvailable_def ensure_probed_def ensure_found_def health_tick_def tick_probed_def
  on_close_def resume_def probe_url_def probe_result_def

lemma find_free_net: "fst (findFreeProxyPort free_net) = 7001"
  by (simp add: findFreeProxyPort_def scan_ports.simps isPortFree_def free_net_def)

lemma stopProxy_inv: "handle_live s \<Longrightarrow> handle_live (stopProxy s)"
  and stopProxy_fresh: "pids_fresh s \<Longrightarrow> pids_fresh (stopProxy s)"
  by (auto simp: handle_live_def pids_fresh_def stopProxy_def clear_health_check_def Let_def split: option.splits)

lemma startProxy_inv: "handle_live (startProxy port s)"
  and startProxy_fresh: "pids_fresh s \<Longrightarrow> pids_fresh (startProxy port s)"
  by (auto simp: handle_live_def pids_fresh_def startProxy_def setupHealthCheck_def suspend_def Let_def list_all_iff
      split: option.splits)

lemma suspend_inv: "handle_live (suspend t s) = handle_live s"
  and suspend_fresh: "pids_fresh (suspend t s) = pids_fresh s"
  by (auto simp: handle_live_def pids_fresh_def suspend_def)

lemma resume_inv: "resume t s = Some s' \<Longrightarrow> handle_live s' = handle_live s"
  and resume_fresh: "resume t s = Some s' \<Longrightarrow> pids_fresh s' = pids_fresh s"
  by (auto simp: handle_live_def pids_fresh_def resume_def split: if_splits)

lemma on_close_inv: "handle_live (on_close p s)"
  and on_close_fresh: "pids_fresh s \<Longrightarrow> pids_fresh (on_close p s)"
  by (auto simp: handle_live_def pids_fresh_def on_close_def ensureProxyAvailable_def suspend_def Let_def list_all_iff
      split: option.splits)

lemma step_inv:
  assumes "step e s = Some s'" "handle_live s" "pids_fresh s"
  shows "handle_live s' \<and> pids_fresh s'"
proof (cases e)
  case CallEnsure
  with assms show ?thesis
    by (auto simp: ensureProxyAvailable_def suspend_inv suspend_fresh split: option.splits)
next
  case (CallStart port)
  with assms show ?thesis by (auto simp: startProxy_inv startProxy_fresh)
next
  case CallStop
  with assms show ?thesis by (auto simp: stopProxy_inv stopProxy_fresh)
next
  case (Close p)
  with assms show ?thesis by (auto simp: on_close_inv on_close_fresh split: if_splits)
next
  case (Tick t)
  with assms show ?thesis
    by (auto simp: health_tick_def suspend_inv suspend_fresh split: if_splits option.splits)
next
  case DelayDone
  with assms obtain s1 where r: "resume StartDelay s = Some s1" and s': "s' = startProxy_delayed s1"
    by auto
  from r assms have "handle_live s1" "pids_fresh s1" by (simp_all add: resume_inv resume_fresh)
  then show ?thesis unfolding s'
    by (auto simp: startProxy_delayed_def suspend_inv suspend_fresh stopProxy_inv stopProxy_fresh
        split: option.splits)
next
  case (StartProbed x)
  with assms obtain s1 where r: "resume StartProbe s = Some s1" and s': "s' = startProxy_probed x s1"
    by auto
  from r assms have "handle_live s1" "pids_fresh s1" by (simp_all add: resume_inv resume_fresh)
  then show ?thesis unfolding s'
    by (auto simp: startProxy_probed_def stopProxy_inv stopProxy_fresh)
next
  case (RestartFound net)
  with assms obtain s1 where r: "resume RestartWait s = Some s1" and s': "s' = restartProxy_found net s1"
    by auto
  from r assms have "handle_live s1" "pids_fresh s1" by (simp_all add: resume_inv resume_fresh)
  then show ?thesis unfolding s'
    by (auto simp: restartProxy_found_def startProxy_inv startProxy_fresh)
next
  case (EnsureProbed x)
  with assms obtain s1 where r: "resume EnsureProbe s = Some s1" and s': "s' = ensure_probed x s1"
    by auto
  from r assms have "handle_live s1" "pids_fresh s1" by (simp_all add: resume_inv resume_fresh)
  then show ?thesis unfolding s'
    by (auto simp: ensure_probed_def suspend_inv suspend_fresh)
next
  case (EnsureFound net)
  with assms obtain s1 where r: "resume EnsureFind s = Some s1" and s': "s' = ensure_found net s1"
    by auto
  from r assms have "handle_live s1" "pids_fresh s1" by (simp_all add: resume_inv resume_fresh)
  then show ?thesis unfolding s'
    by (auto simp: ensure_found_def startProxy_inv startProxy_fresh)
next
  case (TickProbed x)
  with assms obtain s1 where r: "resume TickProbe s = Some s1" and s': "s' = tick_probed x s1"
    by auto
  from r assms have "handle_live s1" "pids_fresh s1" by (simp_all add: resume_inv resume_fresh)
  then show ?thesis unfolding s'
    by (auto simp: tick_probed_def restartProxy_def suspend_inv suspend_fresh stopProxy_inv stopProxy_fresh)
qed

lemma reachable_inv: "reachable s \<Longrightarrow> handle_live s \<and> pids_fresh s"
proof (induction rule: reachable.induct)
  case reach_init
  show ?case by (simp add: handle_live_def pids_fresh_def init_def)
next
  case (reach_step s e s')
  then show ?case using step_inv by blast
qed

lemma run_reachable: "reachable s \<Longrightarrow> run es s = Some s' \<Longrightarrow> reachable s'"
proof (induction es arbitrary: s)
  case Nil
  then show ?case by simp
next
  case (Cons e es)
  then show ?case by (auto split: option.splits intro: reachable.reach_step)
qed

lemma startProxy_spawns:
  "next_pid (startProxy port s) = Suc (next_pid s) \<and>
   proxyProcess (mgr (startProxy port s)) = Some (next_pid s) \<and>
   proxyPort (mgr (startProxy port s)) = Some port \<and>
   live (startProxy port s) = next_pid s # live s \<and>
   killed (startProxy port s) = killed s"
  by (simp add: startProxy_def setupHealthCheck_def suspend_def Let_def split: option.splits)

lemma run_append: "run (es @ fs) s = (case run es s of None \<Rightarrow> None | Some s' \<Rightarrow> run fs s')"
  by (induction es arbitrary: s) (auto split: option.splits)

lemma run_prefix: "run double_start_prefix init = Some attached_state"
  by (simp add: double_start_prefix_def attached_state_def sup_defs find_free_net healthy_def
      refused_def Let_def)

lemma reachable_attached: "reachable attached_state"
  using run_reachable[OF reachable.reach_init run_prefix] .

text \<open>
  The part of C4 that holds: the manager has one handle field, and in every reachable
  state the process it names has not reported its exit.
\<close>

lemma attached_handle_live:
  assumes "reachable s" and "proxyProcess (mgr s) = Some p"
  shows "p \<in> set (live s) \<and> p < next_pid s"
  using reachable_inv[OF assms(1)] assms(2)
  by (auto simp: handle_live_def pids_fresh_def list_all_iff)

text \<open>
  C4. The second half of the claim (a start while a handle is attached refuses to spawn)
  is not what the code does: \<^verbatim>\<open>startProxy\<close> assigns the new handle to \<^verbatim>\<open>proxyProcess\<close>
  without looking at it. Its callers do see to it that nothing is attached:
  \<^verbatim>\<open>restartProxy\<close> calls \<^verbatim>\<open>stopProxy()\<close> first and \<^verbatim>\<open>ensureProxyAvailable\<close> probes first; but
  both do so before an \<^verbatim>\<open>await\<close> and start after it. In the state \<open>attached_state\<close>,
  which the supervisor reaches by itself after one \<^verbatim>\<open>ensureProxyAvailable()\<close> (the child
  exits while a health check is in flight, the exit handler and the failed health check
  both begin a restart, and the first of them has attached process 1), the
  \<^verbatim>\<open>restartProxy\<close> that is waiting resumes and spawns process 2 over process 1. Process 1
  is left running without a handle: a later \<^verbatim>\<open>stopProxy()\<close> signals process 2 alone. A
  direct call of \<^verbatim>\<open>startProxy(7002)\<close> in \<open>attached_state\<close> spawns in the same way.
\<close>

theorem second_start_orphans_child:
  "run double_start_prefix init = Some attached_state \<and>
   proxyProcess (mgr attached_state) = Some 1 \<and>
   step (RestartFound free_net) attached_state = Some doubled_state \<and>
   next_pid doubled_state = Suc (next_pid attached_state) \<and>
   proxyProcess (mgr doubled_state) = Some 2 \<and>
   live doubled_state = [2, 1] \<and> killed doubled_state = [] \<and>
   killed (stopProxy doubled_state) = [2] \<and>
   proxyProcess (mgr (stopProxy doubled_state)) = None \<and>
   step (CallStart 7002) attached_state = Some (startProxy 7002 attached_state) \<and>
   proxyProcess (mgr (startProxy 7002 attached_state)) = Some 2 \<and>
   live (startProxy 7002 attached_state) = [2, 1] \<and>
   killed (startProxy 7002 attached_state) = []"
proof -
  have a: "step (RestartFound free_net) attached_state = Some doubled_state"
    by (simp add: attached_state_def doubled_state_def sup_defs find_free_net Let_def)
  have b: "killed (stopProxy doubled_state) = [2] \<and> proxyProcess (mgr (stopProxy doubled_state)) = None"
    by (simp add: doubled_state_def stopProxy_def clear_health_check_def Let_def)
  have c: "proxyProcess (mgr (startProxy 7002 attached_state)) = Some 2 \<and>
      live (startProxy 7002 attached_state) = [2, 1] \<and>
      killed (startProxy 7002 attached_state) = []"
    using startProxy_spawns[of 7002 attached_state] by (simp add: attached_state_def)
  from run_prefix a b c show ?thesis
    by (simp add: attached_state_def doubled_state_def)
qed

subsection \<open>Stopping\<close>

lemma stopProxy_attached:
  assumes "proxyProcess (mgr s) = Some p"
  shows "proxyPort (mgr (stopProxy s)) = None \<and> proxyProcess (mgr (stopProxy s)) = None \<and>
         healthCheckInterval (mgr (stopProxy s)) = None \<and> isStopped (mgr (stopProxy s)) \<and>
         killed (stopProxy s) = p # killed s \<and> next_pid (stopProxy s) = next_pid s \<and>
         isProxyAvailable (mgr (stopProxy s)) fetch = (False, [])"
  using assms
  by (simp add: stopProxy_def clear_health_check_def isProxyAvailable_def probe_url_def Let_def
      split: option.splits)

lemma stopProxy_next_pid: "next_pid (stopProxy s) = next_pid s"
  and stopProxy_pending: "pending (stopProxy s) = pending s"
  and stopProxy_stays_stopped: "isStopped (mgr s) \<Longrightarrow> isStopped (mgr (stopProxy s))"
  by (simp_all add: stopProxy_def clear_health_check_def Let_def split: option.splits)

lemma resume_quiet:
  assumes "resume t s = Some s'"
  shows "next_pid s' = next_pid s \<and> mgr s' = mgr s \<and> set (pending s') \<subseteq> set (pending s) \<and>
         t \<in> set (pending s)"
  using assms set_remove1_subset[of t "pending s"] by (auto simp: resume_def split: if_splits)

text \<open>
  When no restart and no \<^verbatim>\<open>ensureProxyAvailable\<close> is in flight and the manager was stopped
  deliberately, no automatic event spawns a process, and this stays so after the event.
\<close>

lemma quiet_step:
  assumes "no_restart_pending s" and "automatic e" and "step e s = Some s'"
  shows "next_pid s' = next_pid s \<and> no_restart_pending s'"
proof (cases e)
  case (Close p)
  with assms show ?thesis
    by (auto simp: no_restart_pending_def on_close_def Let_def split: if_splits)
next
  case (Tick t)
  with assms show ?thesis
    by (auto simp: no_restart_pending_def health_tick_def suspend_def split: if_splits option.splits)
next
  case DelayDone
  with assms obtain s1 where r: "resume StartDelay s = Some s1" and s': "s' = startProxy_delayed s1"
    by auto
  from resume_quiet[OF r] assms(1) have "next_pid s1 = next_pid s" "no_restart_pending s1"
    by (auto simp: no_restart_pending_def)
  then show ?thesis unfolding s'
    by (auto simp: no_restart_pending_def startProxy_delayed_def suspend_def stopProxy_next_pid
        stopProxy_pending stopProxy_stays_stopped split: option.splits)
next
  case (StartProbed x)
  with assms obtain s1 where r: "resume StartProbe s = Some s1" and s': "s' = startProxy_probed x s1"
    by auto
  from resume_quiet[OF r] assms(1) have "next_pid s1 = next_pid s" "no_restart_pending s1"
    by (auto simp: no_restart_pending_def)
  then show ?thesis unfolding s'
    by (auto simp: no_restart_pending_def startProxy_probed_def stopProxy_next_pid
        stopProxy_pending stopProxy_stays_stopped)
next
  case (RestartFound net)
  with assms obtain s1 where r: "resume RestartWait s = Some s1" by auto
  from resume_quiet[OF r] assms(1) show ?thesis by (simp add: no_restart_pending_def)
next
  case (EnsureProbed x)
  with assms obtain s1 where r: "resume EnsureProbe s = Some s1" by auto
  from resume_quiet[OF r] assms(1) show ?thesis by (simp add: no_restart_pending_def)
next
  case (EnsureFound net)
  with assms obtain s1 where r: "resume EnsureFind s = Some s1" by auto
  from resume_quiet[OF r] assms(1) show ?thesis by (simp add: no_restart_pending_def)
next
  case (TickProbed x)
  with assms obtain s1 where r: "resume TickProbe s = Some s1" and s': "s' = tick_probed x s1"
    by auto
  from resume_quiet[OF r] assms(1) have "next_pid s1 = next_pid s" "no_restart_pending s1"
    by (auto simp: no_restart_pending_def)
  then show ?thesis unfolding s'
    by (auto simp: no_restart_pending_def tick_probed_def)
qed (use assms in simp_all)

lemma quiet_run:
  assumes "no_restart_pending s" and "list_all automatic es" and "run es s = Some s'"
  shows "next_pid s' = next_pid s \<and> no_restart_pending s'"
  using assms
proof (induction es arbitrary: s)
  case Nil
  then show ?case by simp
next
  case (Cons e es)
  from Cons.prems obtain s1 where s1: "step e s = Some s1" and r: "run es s1 = Some s'"
    by (auto split: option.splits)
  from quiet_step[OF Cons.prems(1) _ s1] Cons.prems(2)
  have "next_pid s1 = next_pid s" "no_restart_pending s1" by simp_all
  with Cons.IH[OF _ _ r] Cons.prems(2) show ?case by simp
qed

text \<open>
  C5. After \<^verbatim>\<open>stopProxy()\<close> on a manager with an attached handle, the handle, the port and
  the health-check timer are cleared and \<^verbatim>\<open>isProxyAvailable()\<close> answers false without a
  network call. The second half of the claim (no automatic restart ever occurs afterwards)
  is not what the code does when a restart was already in flight: in the state
  \<open>attached_state\<close>, reached by the supervisor itself, \<^verbatim>\<open>restartProxy\<close> is waiting
  before its \<^verbatim>\<open>startProxy\<close>; after \<^verbatim>\<open>stopProxy()\<close> it resumes, does not look at
  \<^verbatim>\<open>isStopped\<close> again, spawns process 2 and sets \<^verbatim>\<open>isStopped\<close> back to false.
\<close>

theorem restart_after_stop:
  "run double_start_prefix init = Some attached_state \<and>
   proxyProcess (mgr attached_state) = Some 1 \<and>
   step CallStop attached_state = Some stopped_state \<and>
   isProxyAvailable (mgr stopped_state) fetch = (False, []) \<and>
   healthCheckInterval (mgr stopped_state) = None \<and> timers stopped_state = [] \<and>
   isStopped (mgr stopped_state) \<and>
   automatic (RestartFound free_net) \<and>
   step (RestartFound free_net) stopped_state = Some restarted_state \<and>
   next_pid restarted_state = Suc (next_pid stopped_state) \<and>
   proxyProcess (mgr restarted_state) = Some 2 \<and>
   live restarted_state = [2, 1] \<and>
   \<not> isStopped (mgr restarted_state)"
proof -
  have a: "step CallStop attached_state = Some stopped_state"
    by (simp add: attached_state_def stopped_state_def sup_defs Let_def)
  have b: "step (RestartFound free_net) stopped_state = Some restarted_state"
    by (simp add: stopped_state_def restarted_state_def sup_defs find_free_net Let_def)
  have c: "isProxyAvailable (mgr stopped_state) fetch = (False, [])"
    by (simp add: stopped_state_def isProxyAvailable_def probe_url_def)
  from run_prefix a b c show ?thesis
    by (simp add: attached_state_def stopped_state_def restarted_state_def)
qed

subsection \<open>The health probe\<close>

lemma isProxyAvailable_unset:
  "proxyPort m = None \<Longrightarrow> isProxyAvailable m fetch = (False, [])"
  by (simp add: isProxyAvailable_def probe_url_def)

lemma isProxyAvailable_true:
  assumes "fst (isProxyAvailable m fetch)"
  shows "\<exists>port r. proxyPort m = Some port \<and> port \<noteq> 0 \<and>
           fetch (''http://127.0.0.1:'' @ show_nat port @ ''/ping'') = Replied r \<and> reply_ok r"
  using assms
  by (auto simp: isProxyAvailable_def probe_url_def probe_result_def
      split: option.splits if_splits fetch_reply.splits)

text \<open>
  C7. \<^verbatim>\<open>isProxyAvailable()\<close> answers false without a network call when no port is assigned,
  and true only when a port is assigned and the probe answers with a successful status
  (the two lemmas above). The bounded timeout of the claim is not in the code: the
  \<^verbatim>\<open>fetch\<close> is awaited with no timer and no abort signal, so a probe that is answered
  after sixty seconds counts as available.
\<close>

theorem slow_probe_counts_as_available:
  "isProxyAvailable
     \<lparr>proxyPort = Some 7001, proxyProcess = Some 0, healthCheckInterval = Some 0, isStopped = False\<rparr>
     slow_reply
   = (True, [''http://127.0.0.1:7001/ping''])"
  by (simp add: isProxyAvailable_def probe_url_def probe_result_def slow_reply_def
      show_nat.simps digit_char_def)

section \<open>Properties of the log\<close>

subsection \<open>Reading numbers\<close>

lemma nstep_char: "nstep q c = Some q' \<Longrightarrow> is_num_char c"
  by (cases q) (auto simp: is_num_char_def is_digit_def split: if_splits)

lemma nrun_chars: "nrun q s \<Longrightarrow> list_all is_num_char s"
proof (induction s arbitrary: q)
  case Nil
  show ?case by simp
next
  case (Cons c cs)
  then obtain q' where "nstep q c = Some q'" and "nrun q' cs"
    by (auto split: option.splits)
  with Cons.IH[of q'] nstep_char[of q c q'] show ?case by simp
qed

lemma json_number_chars: "json_number n \<Longrightarrow> n \<noteq> [] \<and> list_all is_num_char n"
  using nrun_chars[of NStart n] by (auto simp: json_number_def)

lemma is_num_char_other:
  "is_num_char c \<Longrightarrow> c \<noteq> CHR ''n'' \<and> c \<noteq> CHR ''t'' \<and> c \<noteq> CHR ''f'' \<and>
     c \<noteq> CHR 0x22 \<and> c \<noteq> CHR ''['' \<and> c \<noteq> CHR ''{'' \<and> c \<noteq> CHR '']'' \<and> c \<noteq> CHR ''}'' \<and>
     c \<noteq> CHR 0x0A"
  by (auto simp: is_num_char_def is_digit_def)

lemma parse_number_token:
  assumes "json_number n" and "number_end rest"
  shows "parse_number (n @ rest) = Some (JNum n, rest)"
proof -
  from json_number_chars[OF assms(1)] have a: "\<forall>c\<in>set n. is_num_char c"
    by (simp add: list_all_iff)
  have t: "takeWhile is_num_char rest = []" and d: "dropWhile is_num_char rest = rest"
    using assms(2) by (auto simp: number_end_def split: list.splits)
  have "takeWhile is_num_char (n @ rest) = n" using a t by (simp add: takeWhile_append2)
  moreover have "dropWhile is_num_char (n @ rest) = rest" using a d by (simp add: dropWhile_append2)
  ultimately show ?thesis using assms(1) by (simp add: parse_number_def)
qed

lemma json_number_first: "json_number n \<Longrightarrow> \<exists>c r. n = c # r \<and> is_num_char c"
  using json_number_chars[of n] by (cases n) auto

lemma number_end_simps:
  "number_end []" "number_end (CHR '','' # r)" "number_end (CHR '']'' # r)" "number_end (CHR ''}'' # r)"
  by (simp_all add: number_end_def is_num_char_def is_digit_def)

lemma parse_value_num:
  assumes "json_number n" and "number_end rest"
  shows "parse_value (Suc k) (n @ rest) = Some (JNum n, rest)"
proof -
  obtain c r where cr: "n = c # r" and c: "is_num_char c"
    using json_number_first[OF assms(1)] by blast
  have "parse_value (Suc k) (c # r @ rest) = parse_number (c # r @ rest)"
    using is_num_char_other[OF c] by simp
  with parse_number_token[OF assms] cr show ?thesis by simp
qed

subsection \<open>Strings\<close>

lemma below_sixteen:
  "d < 16 \<Longrightarrow> d \<in> {0, 1, 2, 3, 4, 5, 6, 7, 8, 9, 10, 11, 12, 13, 14, 15 :: nat}"
  by (simp add: insert_iff) arith

lemma hex_val_hex_char: "d < 16 \<Longrightarrow> hex_val (hex_char d) = Some d"
  using below_sixteen[of d] by (auto simp: hex_val_def hex_char_def is_digit_def)

lemma hex_char_not_nl: "d < 16 \<Longrightarrow> hex_char d \<noteq> CHR 0x0A"
  using below_sixteen[of d] by (auto simp: hex_char_def)

lemma unicode_esc:
  assumes "(of_char c :: nat) < 0x20"
  shows "unicode (CHR ''0'') (CHR ''0'') (hex_char (of_char c div 16)) (hex_char (of_char c mod 16)) = Some c"
proof -
  have a: "(of_char c :: nat) div 16 < 16" and b: "(of_char c :: nat) mod 16 < 16"
    using assms by simp_all
  have z: "hex_val (CHR ''0'') = Some 0" by (simp add: hex_val_def is_digit_def)
  have "char_of ((of_char c :: nat) div 16 * 16 + of_char c mod 16) = c"
    by simp
  then show ?thesis
    by (simp add: unicode_def z hex_val_hex_char[OF a] hex_val_hex_char[OF b])
qed

lemma parse_chars_esc:
  "parse_chars (esc c @ t) = map_option (\<lambda>(u, r). (c # u, r)) (parse_chars t)"
proof -
  consider "c = CHR 0x22" | "c = CHR 0x5C" | "c = CHR 0x08" | "c = CHR 0x0C" | "c = CHR 0x0A"
    | "c = CHR 0x0D" | "c = CHR 0x09"
    | "c \<notin> {CHR 0x22, CHR 0x5C, CHR 0x08, CHR 0x0C, CHR 0x0A, CHR 0x0D, CHR 0x09}"
        "(of_char c :: nat) < 0x20"
    | "c \<notin> {CHR 0x22, CHR 0x5C, CHR 0x08, CHR 0x0C, CHR 0x0A, CHR 0x0D, CHR 0x09}"
        "\<not> (of_char c :: nat) < 0x20"
    by blast
  then show ?thesis
  proof cases
    case 8
    then show ?thesis
      using unicode_esc[of c] by (simp add: esc_def)
  next
    case 9
    then show ?thesis by (simp add: esc_def)
  qed (simp_all add: esc_def unescape_def)
qed

lemma parse_chars_quote:
  "parse_chars (concat (map esc s) @ CHR 0x22 # rest) = Some (s, rest)"
  by (induction s) (simp_all add: parse_chars_esc)

lemma esc_no_nl: "CHR 0x0A \<notin> set (esc c)"
proof -
  consider "c = CHR 0x22" | "c = CHR 0x5C" | "c = CHR 0x08" | "c = CHR 0x0C" | "c = CHR 0x0A"
    | "c = CHR 0x0D" | "c = CHR 0x09"
    | "c \<notin> {CHR 0x22, CHR 0x5C, CHR 0x08, CHR 0x0C, CHR 0x0A, CHR 0x0D, CHR 0x09}"
        "(of_char c :: nat) < 0x20"
    | "c \<notin> {CHR 0x22, CHR 0x5C, CHR 0x08, CHR 0x0C, CHR 0x0A, CHR 0x0D, CHR 0x09}"
        "\<not> (of_char c :: nat) < 0x20"
    by blast
  then show ?thesis
  proof cases
    case 8
    then have e: "esc c = [CHR 0x5C, CHR ''u'', CHR ''0'', CHR ''0'',
        hex_char (of_char c div 16), hex_char (of_char c mod 16)]"
      by (simp add: esc_def)
    from 8 have "(of_char c :: nat) div 16 < 16" "(of_char c :: nat) mod 16 < 16" by simp_all
    then have "hex_char (of_char c div 16) \<noteq> CHR 0x0A" "hex_char (of_char c mod 16) \<noteq> CHR 0x0A"
      by (simp_all add: hex_char_not_nl)
    then show ?thesis unfolding e by (simp add: eq_commute)
  next
    case 9
    then show ?thesis by (auto simp: esc_def)
  qed (simp_all add: esc_def)
qed

lemma quote_no_nl: "CHR 0x0A \<notin> set (quote s)"
  by (induction s) (auto simp: quote_def esc_no_nl)

subsection \<open>Reading values\<close>

lemma parse_value_str: "parse_value (Suc n) (quote s @ rest) = Some (JStr s, rest)"
  by (simp add: quote_def parse_chars_quote)

lemma ser_first:
  assumes "numbers_ok v"
  shows "\<exists>c r. ser v = c # r \<and> c \<noteq> CHR '']'' \<and> c \<noteq> CHR ''}''"
proof (cases v)
  case (JNum n)
  show ?thesis
  proof (cases "finite_number n")
    case True
    with assms JNum have "json_number n" by simp
    then obtain c r where "n = c # r" and "is_num_char c"
      using json_number_first by blast
    with JNum True is_num_char_other[of c] show ?thesis by (auto simp: finite_number_def)
  next
    case False
    with JNum show ?thesis by (auto simp: finite_number_def)
  qed
qed (auto simp: quote_def)

lemma ser_elems_first:
  assumes "numbers_ok_elems xs" and "xs \<noteq> []"
  shows "\<exists>c r. ser_elems xs = c # r \<and> c \<noteq> CHR '']''"
proof (cases xs)
  case Nil
  with assms(2) show ?thesis by simp
next
  case (Cons x ys)
  with assms(1) have "numbers_ok x" by simp
  then obtain c r where "ser x = c # r" "c \<noteq> CHR '']''" using ser_first by blast
  with Cons show ?thesis by (cases ys) auto
qed

lemma ser_members_first:
  "ser_members fs \<noteq> [] \<Longrightarrow> \<exists>r. ser_members fs = CHR 0x22 # r"
  by (induction fs) (auto simp: quote_def)

lemma ser_members_empty: "ser_members fs = [] \<Longrightarrow> json_norm_members fs = []"
  by (induction fs) (auto simp: quote_def split: if_splits)

lemma parse_value_arr:
  assumes "numbers_ok_elems xs" and "xs \<noteq> []"
  shows "parse_value (Suc n) (CHR ''['' # ser_elems xs @ t)
           = map_option (\<lambda>(vs, r). (JArr vs, r)) (parse_elems n (ser_elems xs @ t))"
proof -
  obtain c r where "ser_elems xs = c # r" "c \<noteq> CHR '']''"
    using ser_elems_first[OF assms] by blast
  then show ?thesis by simp
qed

lemma parse_value_obj:
  assumes "ser_members fs \<noteq> []"
  shows "parse_value (Suc n) (CHR ''{'' # ser_members fs @ t)
           = map_option (\<lambda>(ms, r). (JObj ms, r)) (parse_members n (ser_members fs @ t))"
proof -
  obtain r where "ser_members fs = CHR 0x22 # r"
    using ser_members_first[OF assms] by blast
  then show ?thesis by simp
qed

lemma parse_members_step:
  assumes "parse_value n (ser v @ t) = Some (v', t)"
  shows "parse_members (Suc n) (quote k @ CHR '':'' # ser v @ t)
           = (case t of
                [] \<Rightarrow> None
              | d # r4 \<Rightarrow>
                  if d = CHR '','' then map_option (\<lambda>(ms, r5). ((k, v') # ms, r5)) (parse_members n r4)
                  else if d = CHR ''}'' then Some ([(k, v')], r4)
                  else None)"
  using assms by (simp add: quote_def parse_chars_quote)

lemma parse_ser:
  "numbers_ok v \<Longrightarrow> \<forall>fuel rest. cost v \<le> fuel \<longrightarrow> number_end rest \<longrightarrow>
       parse_value fuel (ser v @ rest) = Some (json_norm v, rest)"
  "numbers_ok_elems xs \<Longrightarrow> \<forall>fuel rest. xs \<noteq> [] \<longrightarrow> cost_elems xs \<le> fuel \<longrightarrow>
       parse_elems fuel (ser_elems xs @ CHR '']'' # rest) = Some (json_norm_elems xs, rest)"
  "numbers_ok_members fs \<Longrightarrow> \<forall>fuel rest. ser_members fs \<noteq> [] \<longrightarrow> cost_members fs \<le> fuel \<longrightarrow>
       parse_members fuel (ser_members fs @ CHR ''}'' # rest) = Some (json_norm_members fs, rest)"
proof (induction v and xs and fs rule: ser_ser_elems_ser_members.induct)
  case 1
  show ?case
  proof (intro allI impI)
    fix fuel :: nat and rest
    assume "cost JUndefined \<le> fuel"
    then obtain n where "fuel = Suc n" by (cases fuel) auto
    then show "parse_value fuel (ser JUndefined @ rest) = Some (json_norm JUndefined, rest)" by simp
  qed
next
  case 2
  show ?case
  proof (intro allI impI)
    fix fuel :: nat and rest
    assume "cost JNull \<le> fuel"
    then obtain n where "fuel = Suc n" by (cases fuel) auto
    then show "parse_value fuel (ser JNull @ rest) = Some (json_norm JNull, rest)" by simp
  qed
next
  case (3 b)
  show ?case
  proof (intro allI impI)
    fix fuel :: nat and rest
    assume "cost (JBool b) \<le> fuel"
    then obtain n where "fuel = Suc n" by (cases fuel) auto
    then show "parse_value fuel (ser (JBool b) @ rest) = Some (json_norm (JBool b), rest)" by simp
  qed
next
  case (4 i)
  show ?case
  proof (intro allI impI)
    fix fuel :: nat and rest
    assume "cost (JNum i) \<le> fuel" and ne: "number_end rest"
    then obtain n where n: "fuel = Suc n" by (cases fuel) auto
    show "parse_value fuel (ser (JNum i) @ rest) = Some (json_norm (JNum i), rest)"
    proof (cases "finite_number i")
      case True
      with "4.prems" have "json_number i" by simp
      from parse_value_num[OF this ne, of n] True show ?thesis
        by (simp add: n finite_number_def)
    next
      case False
      then show ?thesis by (auto simp: n finite_number_def)
    qed
  qed
next
  case (5 s)
  show ?case
  proof (intro allI impI)
    fix fuel :: nat and rest
    assume "cost (JStr s) \<le> fuel"
    then obtain n where "fuel = Suc n" by (cases fuel) auto
    then show "parse_value fuel (ser (JStr s) @ rest) = Some (json_norm (JStr s), rest)"
      using parse_value_str by simp
  qed
next
  case (6 xs)
  show ?case
  proof (intro allI impI)
    fix fuel :: nat and rest
    assume c: "cost (JArr xs) \<le> fuel"
    then obtain n where n: "fuel = Suc n" and le: "cost_elems xs \<le> n" by (cases fuel) auto
    show "parse_value fuel (ser (JArr xs) @ rest) = Some (json_norm (JArr xs), rest)"
    proof (cases "xs = []")
      case True
      then show ?thesis by (simp add: n)
    next
      case False
      from "6.prems" have ok: "numbers_ok_elems xs" by simp
      from "6.IH"[OF ok] False le
      have "parse_elems n (ser_elems xs @ CHR '']'' # rest) = Some (json_norm_elems xs, rest)"
        by blast
      with parse_value_arr[OF ok False, of n "CHR '']'' # rest"] show ?thesis
        by (simp add: n)
    qed
  qed
next
  case (7 fs)
  show ?case
  proof (intro allI impI)
    fix fuel :: nat and rest
    assume c: "cost (JObj fs) \<le> fuel"
    then obtain n where n: "fuel = Suc n" and le: "cost_members fs \<le> n" by (cases fuel) auto
    show "parse_value fuel (ser (JObj fs) @ rest) = Some (json_norm (JObj fs), rest)"
    proof (cases "ser_members fs = []")
      case True
      then show ?thesis by (simp add: n ser_members_empty)
    next
      case False
      from "7.prems" have ok: "numbers_ok_members fs" by simp
      from "7.IH"[OF ok] False le
      have "parse_members n (ser_members fs @ CHR ''}'' # rest) = Some (json_norm_members fs, rest)"
        by blast
      with parse_value_obj[OF False, of n "CHR ''}'' # rest"] show ?thesis
        by (simp add: n)
    qed
  qed
next
  case 8
  show ?case by simp
next
  case (9 x)
  show ?case
  proof (intro allI impI)
    fix fuel :: nat and rest
    assume c: "cost_elems [x] \<le> fuel"
    then obtain n where n: "fuel = Suc n" and le: "cost x \<le> n" by (cases fuel) auto
    from "9.prems" have ok: "numbers_ok x" by simp
    from "9.IH"[OF ok] le
    have "parse_value n (ser x @ CHR '']'' # rest) = Some (json_norm x, CHR '']'' # rest)"
      using number_end_simps(3) by blast
    then show "parse_elems fuel (ser_elems [x] @ CHR '']'' # rest) = Some (json_norm_elems [x], rest)"
      by (simp add: n)
  qed
next
  case (10 x y ys)
  show ?case
  proof (intro allI impI)
    fix fuel :: nat and rest
    assume c: "cost_elems (x # y # ys) \<le> fuel"
    then obtain n where n: "fuel = Suc n" and lx: "cost x \<le> n" and ly: "cost_elems (y # ys) \<le> n"
      by (cases fuel) auto
    define t where "t = ser_elems (y # ys) @ CHR '']'' # rest"
    from "10.prems" have okx: "numbers_ok x" and oky: "numbers_ok_elems (y # ys)" by simp_all
    from "10.IH"(1)[OF okx] lx
    have a: "parse_value n (ser x @ CHR '','' # t) = Some (json_norm x, CHR '','' # t)"
      using number_end_simps(2) by blast
    from "10.IH"(2)[OF oky] ly have b: "parse_elems n t = Some (json_norm_elems (y # ys), rest)"
      unfolding t_def by blast
    have "ser_elems (x # y # ys) @ CHR '']'' # rest = ser x @ CHR '','' # t"
      by (simp add: t_def)
    then show "parse_elems fuel (ser_elems (x # y # ys) @ CHR '']'' # rest)
        = Some (json_norm_elems (x # y # ys), rest)"
      using a b by (simp add: n)
  qed
next
  case 11
  show ?case by simp
next
  case (12 k v fs)
  show ?case
  proof (intro allI impI)
    fix fuel :: nat and rest
    assume ne: "ser_members ((k, v) # fs) \<noteq> []" and c: "cost_members ((k, v) # fs) \<le> fuel"
    then obtain n where n: "fuel = Suc n" and lv: "cost v \<le> n" and lf: "cost_members fs \<le> n"
      by (cases fuel) auto
    from "12.prems" have okv: "numbers_ok v" and okf: "numbers_ok_members fs" by simp_all
    show "parse_members fuel (ser_members ((k, v) # fs) @ CHR ''}'' # rest)
        = Some (json_norm_members ((k, v) # fs), rest)"
    proof (cases "v = JUndefined")
      case True
      with ne have ne': "ser_members fs \<noteq> []" by simp
      from lf n have "cost_members fs \<le> fuel" by simp
      with "12.IH"(1)[OF True okf] ne' have "parse_members fuel (ser_members fs @ CHR ''}'' # rest)
          = Some (json_norm_members fs, rest)"
        by blast
      with True show ?thesis by simp
    next
      case False
      show ?thesis
      proof (cases "ser_members fs = []")
        case True
        define t where "t = CHR ''}'' # rest"
        from "12.IH"(2)[OF False okv] lv have a: "parse_value n (ser v @ t) = Some (json_norm v, t)"
          unfolding t_def using number_end_simps(4) by blast
        have "ser_members ((k, v) # fs) @ CHR ''}'' # rest = quote k @ CHR '':'' # ser v @ t"
          using False True by (simp add: t_def)
        then show ?thesis
          using parse_members_step[OF a, of k] False True
          by (simp add: n t_def ser_members_empty)
      next
        case more: False
        define t where "t = CHR '','' # ser_members fs @ CHR ''}'' # rest"
        from "12.IH"(2)[OF False okv] lv have a: "parse_value n (ser v @ t) = Some (json_norm v, t)"
          unfolding t_def using number_end_simps(2) by blast
        from "12.IH"(3)[OF False okf] more lf
        have b: "parse_members n (ser_members fs @ CHR ''}'' # rest) = Some (json_norm_members fs, rest)"
          by blast
        have "ser_members ((k, v) # fs) @ CHR ''}'' # rest = quote k @ CHR '':'' # ser v @ t"
          using False more by (simp add: t_def)
        then show ?thesis
          using parse_members_step[OF a, of k] False b
          by (simp add: n t_def)
      qed
    qed
  qed
qed

lemma JSON_parse_ser:
  assumes "numbers_ok v" and "cost v \<le> fuel"
  shows "JSON_parse fuel (ser v) = Some (json_norm v)"
proof -
  from parse_ser(1)[OF assms(1)] assms(2) number_end_simps(1)
  have "parse_value fuel (ser v @ []) = Some (json_norm v, [])" by blast
  then show ?thesis by (simp add: JSON_parse_def)
qed

lemma json_number_no_nl: "json_number n \<Longrightarrow> CHR 0x0A \<notin> set n"
  using json_number_chars[of n] is_num_char_other by (auto simp: list_all_iff)

lemma ser_no_nl:
  "numbers_ok v \<Longrightarrow> CHR 0x0A \<notin> set (ser v)"
  "numbers_ok_elems xs \<Longrightarrow> CHR 0x0A \<notin> set (ser_elems xs)"
  "numbers_ok_members fs \<Longrightarrow> CHR 0x0A \<notin> set (ser_members fs)"
proof (induction v and xs and fs rule: ser_ser_elems_ser_members.induct)
  case (4 n)
  then show ?case using json_number_no_nl[of n] by (auto simp: finite_number_def)
next
  case (5 s)
  show ?case by (simp add: quote_no_nl)
next
  case (12 k v fs)
  show ?case
  proof (cases "v = JUndefined")
    case True
    with "12.IH"(1) "12.prems" show ?thesis by simp
  next
    case False
    with "12.IH"(2) "12.IH"(3) "12.prems" quote_no_nl[of k] show ?thesis by simp
  qed
qed simp_all

lemma json_norm_id:
  "json_clean v \<Longrightarrow> json_norm v = v"
  "json_clean_elems xs \<Longrightarrow> json_norm_elems xs = xs"
  "json_clean_members fs \<Longrightarrow> json_norm_members fs = fs"
  by (induction v and xs and fs rule: json_norm_json_norm_elems_json_norm_members.induct) auto

subsection \<open>Timestamps\<close>

lemma below_ten: "d < 10 \<Longrightarrow> d \<in> {0, 1, 2, 3, 4, 5, 6, 7, 8, 9 :: nat}"
  by auto

lemma digit_char_facts:
  assumes "d < 10"
  shows "is_digit (digit_char d) \<and> digit_val (digit_char d) = d"
  using below_ten[OF assms]
  by (auto simp: digit_char_def is_digit_def digit_val_def)

lemma show_nat_digits: "c \<in> set (show_nat n) \<Longrightarrow> is_digit c"
proof (induction n arbitrary: c rule: show_nat.induct)
  case (1 n)
  show ?case
  proof (cases "n < 10")
    case True
    with "1.prems" show ?thesis by (simp add: show_nat.simps[of n] digit_char_facts)
  next
    case False
    with "1.prems" "1.IH" show ?thesis
      by (auto simp: show_nat.simps[of n] digit_char_facts)
  qed
qed

lemma show_nat_ne: "show_nat n \<noteq> []"
  by (simp add: show_nat.simps[of n])

lemma digits_val_snoc: "digits_val (ds @ [c]) = 10 * digits_val ds + digit_val c"
  by (simp add: digits_val_def)

lemma digits_val_show_nat: "digits_val (show_nat n) = n"
proof (induction n rule: show_nat.induct)
  case (1 n)
  show ?case
  proof (cases "n < 10")
    case True
    then show ?thesis
      by (simp add: show_nat.simps[of n] digits_val_def digit_char_facts)
  next
    case False
    with "1.IH" show ?thesis
      by (simp add: show_nat.simps[of n] digits_val_snoc digit_char_facts)
  qed
qed

lemma show_nat_length: "n < 10 ^ k \<Longrightarrow> 0 < k \<Longrightarrow> length (show_nat n) \<le> k"
proof (induction n arbitrary: k rule: show_nat.induct)
  case (1 n)
  show ?case
  proof (cases "n < 10")
    case True
    with "1.prems" show ?thesis by (simp add: show_nat.simps[of n])
  next
    case False
    with "1.prems" obtain j where k: "k = Suc j" by (cases k) auto
    with False "1.prems" have j: "0 < j" by (cases j) auto
    from "1.prems" k have "n div 10 < 10 ^ j" by (simp add: less_mult_imp_div_less mult.commute)
    with "1.IH"[OF False this j] False k show ?thesis
      by (simp add: show_nat.simps[of n])
  qed
qed

lemma digits_val_zero_cons: "digits_val (CHR ''0'' # ds) = digits_val ds"
  by (simp add: digits_val_def digit_val_def)

lemma digits_val_zeros: "digits_val (replicate m (CHR ''0'') @ ds) = digits_val ds"
  by (induction m) (simp_all add: digits_val_zero_cons)

lemma is_digit_zero: "is_digit (CHR ''0'')"
  by (simp add: is_digit_def)

lemma padStart_field:
  assumes "n < 10 ^ k" and "0 < k"
  shows "length (padStart k (show_nat n)) = k"
    and "list_all is_digit (padStart k (show_nat n))"
    and "digits_val (padStart k (show_nat n)) = n"
proof -
  from show_nat_length[OF assms] show "length (padStart k (show_nat n)) = k"
    by (simp add: padStart_def)
  have a: "\<forall>c\<in>set (show_nat n). is_digit c" using show_nat_digits by blast
  have b: "\<forall>c\<in>set (replicate (k - length (show_nat n)) (CHR ''0'')). is_digit c"
    using is_digit_zero by simp
  from a b show "list_all is_digit (padStart k (show_nat n))"
    unfolding padStart_def list_all_iff by auto
  show "digits_val (padStart k (show_nat n)) = n"
    by (simp add: padStart_def digits_val_zeros digits_val_show_nat)
qed

lemma take_digits_field:
  assumes "length fld = k" and "list_all is_digit fld"
  shows "take_digits k (fld @ rest) = Some (digits_val fld, rest)"
  using assms by (simp add: take_digits_def)

lemma take_digits_padStart:
  assumes "n < 10 ^ k" and "0 < k"
  shows "take_digits k (padStart k (show_nat n) @ rest) = Some (n, rest)"
  using take_digits_field[OF padStart_field(1,2)[OF assms], of rest] padStart_field(3)[OF assms]
  by simp

lemma parse_iso_toISOString:
  assumes "date_in_range now"
  shows "parse_iso (toISOString now)
           = Some (getUTCFullYear now, getUTCMonth now + 1, getUTCDate now, getUTCHours now,
                   getUTCMinutes now, getUTCSeconds now, getUTCMilliseconds now)"
proof -
  from assms have r: "getUTCFullYear now < 10 ^ 4" "getUTCMonth now + 1 < 10 ^ 2"
      "getUTCDate now < 10 ^ 2" "getUTCHours now < 10 ^ 2" "getUTCMinutes now < 10 ^ 2"
      "getUTCSeconds now < 10 ^ 2" "getUTCMilliseconds now < 10 ^ 3"
    by (simp_all add: date_in_range_def)
  have t: "take_digits 4 (padStart 4 (show_nat (getUTCFullYear now)) @ x) = Some (getUTCFullYear now, x)"
    "take_digits 2 (padStart 2 (show_nat (Suc (getUTCMonth now))) @ x) = Some (Suc (getUTCMonth now), x)"
    "take_digits 2 (padStart 2 (show_nat (getUTCDate now)) @ x) = Some (getUTCDate now, x)"
    "take_digits 2 (padStart 2 (show_nat (getUTCHours now)) @ x) = Some (getUTCHours now, x)"
    "take_digits 2 (padStart 2 (show_nat (getUTCMinutes now)) @ x) = Some (getUTCMinutes now, x)"
    "take_digits 2 (padStart 2 (show_nat (getUTCSeconds now)) @ x) = Some (getUTCSeconds now, x)"
    "take_digits 3 (padStart 3 (show_nat (getUTCMilliseconds now)) @ x) = Some (getUTCMilliseconds now, x)"
    for x
    using r take_digits_padStart[of "getUTCMonth now + 1" 2 x]
    by (simp_all add: take_digits_padStart)
  from assms have y: "getUTCFullYear now \<le> 9999" by (simp add: date_in_range_def)
  from assms show ?thesis
    by (simp add: toISOString_def y parse_iso_def t expect_def date_in_range_def)
qed

subsection \<open>The log line\<close>

lemma map_of_set_field_other: "g \<noteq> k \<Longrightarrow> map_of (set_field k v fs) g = map_of fs g"
  by (induction fs) auto

lemma appendFileSync_reads:
  assumes "appendFileSync fs f s = Inr fs'"
  shows "readFile fs' f = readFile fs f @ s" and "g \<noteq> f \<Longrightarrow> readFile fs' g = readFile fs g"
  using assms
  by (auto simp: appendFileSync_def readFile_def map_of_set_field map_of_set_field_other
      split: if_splits)

lemma mkdirSync_reads: "mkdirSync fs p = Inr fs' \<Longrightarrow> readFile fs' g = readFile fs g"
  by (auto simp: mkdirSync_def readFile_def split: if_splits)

lemma logRequest_appends:
  assumes "logRequest h ph data w = (Inr (), w')"
  shows "readFile (fsys w') (log_dir h @ [log_filename (clock h (time w))])
           = readFile (fsys w) (log_dir h @ [log_filename (clock h (time w))])
             @ ser (log_entry (clock h (time w)) ph data) @ [nl]"
    and "g \<noteq> log_dir h @ [log_filename (clock h (time w))]
           \<Longrightarrow> readFile (fsys w') g = readFile (fsys w) g"
proof -
  define f where "f = log_dir h @ [log_filename (clock h (time w))]"
  define s where "s = ser (log_entry (clock h (time w)) ph data) @ [nl]"
  obtain fs1 where m: "(if \<not> existsSync (fsys w) (log_dir h) then mkdirSync (fsys w) (log_dir h)
      else Inr (fsys w)) = Inr fs1"
    using assms by (auto simp: logRequest_def Let_def split: sum.splits)
  then have r1: "readFile fs1 g = readFile (fsys w) g" for g
    using mkdirSync_reads[of "fsys w" "log_dir h" fs1 g] by (auto split: if_splits)
  from assms m obtain fs2 where a: "appendFileSync fs1 f s = Inr fs2" and w': "fsys w' = fs2"
    unfolding f_def s_def by (auto simp: logRequest_def Let_def split: sum.splits)
  from appendFileSync_reads(1)[OF a] r1 w'
  show "readFile (fsys w') (log_dir h @ [log_filename (clock h (time w))])
           = readFile (fsys w) (log_dir h @ [log_filename (clock h (time w))])
             @ ser (log_entry (clock h (time w)) ph data) @ [nl]"
    by (simp add: f_def s_def)
  assume "g \<noteq> log_dir h @ [log_filename (clock h (time w))]"
  with appendFileSync_reads(2)[OF a, of g] r1 w'
  show "readFile (fsys w') g = readFile (fsys w) g"
    by (simp add: f_def)
qed

lemma log_entry_norm:
  "json_norm (log_entry now ph data)
     = JObj ([(''ts'', JStr (toISOString now)), (''phase'', JStr (phase_name ph))] @
             (if data = JUndefined then [] else [(''data'', json_norm data)]))"
  by (simp add: log_entry_def)

lemma log_entry_ok: "numbers_ok data \<Longrightarrow> numbers_ok (log_entry now ph data)"
  by (simp add: log_entry_def)

lemma demo_clock: "clock demo_host n = demo_now"
  by (simp add: demo_host_def)

lemma demo_log_name: "log_dir demo_host @ [log_filename demo_now] = demo_log_file"
  unfolding log_dir_demo
  by (simp add: demo_log_file_def log_filename_def demo_now_def padStart_def show_nat.simps
      digit_char_def)

lemma replicate_two: "replicate 2 c = [c, c]"
  by (simp add: numeral_2_eq_2)

lemma demo_ts: "toISOString demo_now = ''2025-03-09T10:15:30.007Z''"
  by (simp add: toISOString_def demo_now_def padStart_def show_nat.simps digit_char_def
      replicate_two)

text \<open>
  C9 as stated fails for a record that holds a property of value \<^verbatim>\<open>undefined\<close> or a number
  that is not finite: \<^verbatim>\<open>JSON.stringify\<close> leaves the property out and writes \<^verbatim>\<open>null\<close> for the
  number. The record \<^verbatim>\<open>{chunk: Infinity, meta: {model: undefined, path: ...}}\<close> (a number
  that the body spelled \<^verbatim>\<open>1e999\<close>, a request without \<^verbatim>\<open>model\<close>) is logged, and the line
  read back holds \<^verbatim>\<open>{chunk: null, meta: {path: ...}}\<close>.
\<close>

theorem lossy_record_counterexample:
  "fst (logRequest demo_host Outbound lossy_data (world_with [] empty_fs)) = Inr () \<and>
   readFile (fsys (snd (logRequest demo_host Outbound lossy_data (world_with [] empty_fs)))) demo_log_file
     = ser (log_entry demo_now Outbound lossy_data) @ [nl] \<and>
   JSON_parse 20 (ser (log_entry demo_now Outbound lossy_data))
     = Some (JObj [(''ts'', JStr ''2025-03-09T10:15:30.007Z''), (''phase'', JStr ''outbound''),
                   (''data'', JObj [(''chunk'', JNull),
                                    (''meta'', JObj [(''path'', JStr ''/v1/chat/completions'')])])]) \<and>
   JSON_parse 20 (ser (log_entry demo_now Outbound lossy_data))
     \<noteq> Some (log_entry demo_now Outbound lossy_data)"
proof -
  define W where "W = world_with [] empty_fs"
  obtain w1 where l: "logRequest demo_host Outbound lossy_data W = (Inr (), w1)"
    unfolding W_def using logRequest_demo_ok by blast
  have e: "readFile (fsys W) demo_log_file = []"
    by (simp add: W_def world_with_def empty_fs_def readFile_def)
  from logRequest_appends(1)[OF l] have f: "readFile (fsys w1) demo_log_file
      = ser (log_entry demo_now Outbound lossy_data) @ [nl]"
    unfolding demo_clock demo_log_name by (simp add: e)
  have ok: "numbers_ok (log_entry demo_now Outbound lossy_data)"
    by (simp add: log_entry_def lossy_data_def finite_number_def)
  have co: "cost (log_entry demo_now Outbound lossy_data) \<le> 20"
    by (simp add: log_entry_def lossy_data_def)
  have p: "JSON_parse 20 (ser (log_entry demo_now Outbound lossy_data))
      = Some (JObj [(''ts'', JStr ''2025-03-09T10:15:30.007Z''), (''phase'', JStr ''outbound''),
                   (''data'', JObj [(''chunk'', JNull),
                                    (''meta'', JObj [(''path'', JStr ''/v1/chat/completions'')])])])"
    unfolding JSON_parse_ser[OF ok co]
    by (simp add: log_entry_def lossy_data_def finite_number_def demo_ts)
  have n: "JSON_parse 20 (ser (log_entry demo_now Outbound lossy_data))
      \<noteq> Some (log_entry demo_now Outbound lossy_data)"
    unfolding p by (simp add: log_entry_def lossy_data_def)
  from l f p n show ?thesis unfolding W_def[symmetric] by simp
qed

text \<open>
  C9, amended. Let \<^verbatim>\<open>logRequest(phase, data)\<close> return, let \<open>now\<close> be the reading of the clock
  that it made, and let the numbers in \<open>data\<close> be spelled as numbers are. Then the file of
  the day (named after the local date of \<open>now\<close>, in the log directory) holds what it held
  before, followed by one line and a line feed, and no other file has changed. The line
  holds no line feed. Read back with enough fuel, it is the object with the properties
  \<^verbatim>\<open>ts\<close>, \<^verbatim>\<open>phase\<close> and \<^verbatim>\<open>data\<close>, where \<^verbatim>\<open>ts\<close> is \<^verbatim>\<open>now.toISOString()\<close>, \<^verbatim>\<open>phase\<close> is the
  phase, and \<^verbatim>\<open>data\<close> is what \<^verbatim>\<open>JSON.stringify\<close> keeps of \<open>data\<close> (no property at all when
  \<open>data\<close> is \<^verbatim>\<open>undefined\<close>); it is \<^verbatim>\<open>{ts, phase, data}\<close> itself when \<open>data\<close> holds neither
  \<^verbatim>\<open>undefined\<close> nor a number that is not finite. When the UTC year of \<open>now\<close> is at most
  9999, \<^verbatim>\<open>ts\<close> parses as a timestamp, with the UTC fields of \<open>now\<close>.
\<close>

theorem logRequest_round_trip:
  assumes "logRequest h ph data w = (Inr (), w')"
    and "numbers_ok data"
    and "now = clock h (time w)"
    and "logFile = log_dir h @ [log_filename now]"
    and "line = ser (log_entry now ph data)"
  shows "readFile (fsys w') logFile = readFile (fsys w) logFile @ line @ [nl] \<and>
         (\<forall>f. f \<noteq> logFile \<longrightarrow> readFile (fsys w') f = readFile (fsys w) f) \<and>
         nl \<notin> set line \<and>
         (\<forall>fuel. cost (log_entry now ph data) \<le> fuel \<longrightarrow>
            JSON_parse fuel line
              = Some (JObj ([(''ts'', JStr (toISOString now)), (''phase'', JStr (phase_name ph))] @
                            (if data = JUndefined then [] else [(''data'', json_norm data)])))) \<and>
         (json_clean data \<longrightarrow>
            (\<forall>fuel. cost (log_entry now ph data) \<le> fuel \<longrightarrow>
               JSON_parse fuel line = Some (log_entry now ph data))) \<and>
         (date_in_range now \<longrightarrow>
            parse_iso (toISOString now)
              = Some (getUTCFullYear now, getUTCMonth now + 1, getUTCDate now, getUTCHours now,
                      getUTCMinutes now, getUTCSeconds now, getUTCMilliseconds now))"
proof -
  have ok: "numbers_ok (log_entry now ph data)"
    using assms(2) by (rule log_entry_ok)
  have a: "readFile (fsys w') logFile = readFile (fsys w) logFile @ line @ [nl]"
    using logRequest_appends(1)[OF assms(1)] by (simp add: assms(3-5))
  have b: "\<forall>f. f \<noteq> logFile \<longrightarrow> readFile (fsys w') f = readFile (fsys w) f"
    using logRequest_appends(2)[OF assms(1)] by (simp add: assms(3,4))
  have c: "nl \<notin> set line"
    using ser_no_nl(1)[OF ok] by (simp add: assms(5) nl_def)
  have d: "JSON_parse fuel line
      = Some (JObj ([(''ts'', JStr (toISOString now)), (''phase'', JStr (phase_name ph))] @
                    (if data = JUndefined then [] else [(''data'', json_norm data)])))"
    if "cost (log_entry now ph data) \<le> fuel" for fuel
    unfolding assms(5) JSON_parse_ser[OF ok that] log_entry_norm by (rule refl)
  have e: "JSON_parse fuel line = Some (log_entry now ph data)"
    if cl: "json_clean data" and co: "cost (log_entry now ph data) \<le> fuel" for fuel
  proof -
    from cl have "data \<noteq> JUndefined" by auto
    with d[OF co] json_norm_id(1)[OF cl] show ?thesis by (simp add: log_entry_def)
  qed
  have f: "parse_iso (toISOString now)
      = Some (getUTCFullYear now, getUTCMonth now + 1, getUTCDate now, getUTCHours now,
              getUTCMinutes now, getUTCSeconds now, getUTCMilliseconds now)"
    if "date_in_range now"
    using that by (rule parse_iso_toISOString)
  from a b c d e f show ?thesis by blast
qed

text \<open>A record of the non-streaming path on the demonstration host.\<close>

theorem logRequest_round_trip_witness:
  "readFile (fsys (snd (logRequest demo_host Outbound demo_data (world_with [] empty_fs)))) demo_log_file
     = ser (log_entry demo_now Outbound demo_data) @ [nl] \<and>
   nl \<notin> set (ser (log_entry demo_now Outbound demo_data)) \<and>
   JSON_parse 20 (ser (log_entry demo_now Outbound demo_data))
     = Some (JObj [(''ts'', JStr ''2025-03-09T10:15:30.007Z''), (''phase'', JStr ''outbound''),
                   (''data'', demo_data)]) \<and>
   parse_iso ''2025-03-09T10:15:30.007Z'' = Some (2025, 3, 9, 10, 15, 30, 7)"
proof -
  define W where "W = world_with [] empty_fs"
  obtain w1 where l: "logRequest demo_host Outbound demo_data W = (Inr (), w1)"
    unfolding W_def using logRequest_demo_ok by blast
  have ok: "numbers_ok demo_data"
    by (simp add: demo_data_def finite_number_def json_number_def is_digit_def)
  have c: "demo_now = clock demo_host (time W)" by (simp add: demo_clock)
  have n: "demo_log_file = log_dir demo_host @ [log_filename demo_now]"
    by (simp add: demo_log_name)
  have e: "readFile (fsys W) demo_log_file = []"
    by (simp add: W_def world_with_def empty_fs_def readFile_def)
  have cl: "json_clean demo_data" by (simp add: demo_data_def finite_number_def)
  have co: "cost (log_entry demo_now Outbound demo_data) \<le> 20"
    by (simp add: log_entry_def demo_data_def)
  have dr: "date_in_range demo_now" by (simp add: date_in_range_def demo_now_def)
  note T = logRequest_round_trip[OF l ok c n refl]
  from T e have a: "readFile (fsys w1) demo_log_file
      = ser (log_entry demo_now Outbound demo_data) @ [nl]"
    by simp
  from T have b: "nl \<notin> set (ser (log_entry demo_now Outbound demo_data))"
    by blast
  from T cl co have p: "JSON_parse 20 (ser (log_entry demo_now Outbound demo_data))
      = Some (log_entry demo_now Outbound demo_data)"
    by blast
  have p': "JSON_parse 20 (ser (log_entry demo_now Outbound demo_data))
      = Some (JObj [(''ts'', JStr ''2025-03-09T10:15:30.007Z''), (''phase'', JStr ''outbound''),
                    (''data'', demo_data)])"
    by (rule trans[OF p]) (simp add: log_entry_def demo_ts)
  from T dr have "parse_iso (toISOString demo_now)
      = Some (getUTCFullYear demo_now, getUTCMonth demo_now + 1, getUTCDate demo_now,
              getUTCHours demo_now, getUTCMinutes demo_now, getUTCSeconds demo_now,
              getUTCMilliseconds demo_now)"
    by blast
  then have q: "parse_iso ''2025-03-09T10:15:30.007Z'' = Some (2025, 3, 9, 10, 15, 30, 7)"
    unfolding demo_ts by (simp add: demo_now_def)
  from l a b p' q show ?thesis unfolding W_def[symmetric] by simp
qed

end
